theory Spec2Isabelle
  imports Main "HOL-Library.Word"
begin

unbundle bit_operations_syntax

section \<open>The ACI transport layer (libraries/BLE/hal_aci_tl.cpp)\<close>

text \<open>
  The transport layer keeps two ring buffers of packets (commands to the nRF8001 in
  \<open>aci_tx_q\<close>, events from it in \<open>aci_rx_q\<close>), runs one SPI transaction per RDYN
  event and masks the RDYN interrupt while the event queue is full.

  The header \<^verbatim>\<open>hal_aci_tl.h\<close> is not part of the sources at hand. The two constants it
  defines are parameters of every definition below:
  \<^item> \<open>N\<close> stands for \<^verbatim>\<open>ACI_QUEUE_SIZE\<close>, the number of slots of a queue;
  \<^item> \<open>M\<close> stands for \<^verbatim>\<open>HAL_ACI_MAX_LENGTH\<close>, the largest length byte of a packet.
  The arrays it declares are lists, and a byte (\<^verbatim>\<open>uint8_t\<close>) is a word of 8 bits.
\<close>

subsection \<open>Data\<close>

type_synonym u8 = "8 word"

text \<open>
  What a call does instead of returning: an access outside an array or through a null
  pointer (\<open>Bad_Access\<close>), the \<^verbatim>\<open>while(1);\<close> of the RDYN handler (\<open>Halted\<close>), a
  \<^verbatim>\<open>for\<close> loop whose counter wraps around before its bound is reached (\<open>Diverges\<close>).
\<close>

datatype fault = Bad_Access | Halted | Diverges

text \<open>\<^verbatim>\<open>hal_aci_data_t\<close>: \<open>buffer ! 0\<close> is the length byte, the payload follows.\<close>

record hal_aci_data_t =
  status_byte :: u8
  buffer :: "u8 list"

record aci_queue_t =
  aci_data :: "hal_aci_data_t list"
  head :: u8
  tail :: u8

text \<open>
  Modelled from the spec: the sizes of the arrays, which the missing header declares.
  The specification gives a packet a length and a payload "sized to the maximum
  supported packet length", so \<open>buffer\<close> has \<open>M + 1\<close> bytes (\<open>data_ok\<close>), and it gives a
  queue "an array of N Framed Packet slots" (\<open>slots_ok\<close>). \<open>queue_ok\<close> adds that head
  and tail are indices of slots. Head and tail are bytes, as the \<^verbatim>\<open>uint8_t next\<close> that
  \<open>m_aci_q_enqueue\<close> stores in the tail.
\<close>

definition data_ok :: "nat \<Rightarrow> hal_aci_data_t \<Rightarrow> bool" where
  "data_ok M p = (length (buffer p) = M + 1)"

definition slots_ok :: "nat \<Rightarrow> nat \<Rightarrow> aci_queue_t \<Rightarrow> bool" where
  "slots_ok N M q = (length (aci_data q) = N \<and> list_all (data_ok M) (aci_data q))"

definition queue_ok :: "nat \<Rightarrow> nat \<Rightarrow> aci_queue_t \<Rightarrow> bool" where
  "queue_ok N M q = (slots_ok N M q \<and> unat (head q) < N \<and> unat (tail q) < N)"

subsection \<open>The queue\<close>

text \<open>
  \<^verbatim>\<open>for(loop=0; loop<ACI_QUEUE_SIZE; loop++)\<close> with \<^verbatim>\<open>uint8_t loop\<close>: the counter is a
  byte, so the loop does not end when \<open>N\<close> is above 255.
\<close>

partial_function (option) m_aci_q_init_loop ::
  "nat \<Rightarrow> u8 \<Rightarrow> hal_aci_data_t list \<Rightarrow> (fault + hal_aci_data_t list) option" where
  "m_aci_q_init_loop N loop d =
     (if unat loop < N then
        (if unat loop < length d \<and> 1 < length (buffer (d ! unat loop)) then
           m_aci_q_init_loop N (loop + 1)
             (d[unat loop :=
                  (d ! unat loop)\<lparr>buffer := (buffer (d ! unat loop))[0 := 0, 1 := 0]\<rparr>])
         else Some (Inl Bad_Access))
      else Some (Inr d))"

declare m_aci_q_init_loop.simps [code]

definition m_aci_q_init :: "nat \<Rightarrow> aci_queue_t \<Rightarrow> fault + aci_queue_t" where
  "m_aci_q_init N aci_q =
     (case m_aci_q_init_loop N 0 (aci_data aci_q) of
        None \<Rightarrow> Inl Diverges
      | Some (Inl e) \<Rightarrow> Inl e
      | Some (Inr d) \<Rightarrow> Inr (aci_q\<lparr>aci_data := d, head := 0, tail := 0\<rparr>))"

text \<open>
  \<^verbatim>\<open>(aci_q->tail + 1) % ACI_QUEUE_SIZE\<close> is computed on \<^verbatim>\<open>int\<close> and stored in a
  \<^verbatim>\<open>uint8_t\<close>.
\<close>

definition next_index :: "nat \<Rightarrow> u8 \<Rightarrow> u8" where
  "next_index N i = of_nat ((unat i + 1) mod N)"

text \<open>
  \<^verbatim>\<open>memcpy(dst, src, n)\<close> on two byte arrays: the first \<open>n\<close> bytes of the destination
  are replaced. The caller checks that \<open>n\<close> bytes exist on both sides.
\<close>

definition memcpy :: "u8 list \<Rightarrow> u8 list \<Rightarrow> nat \<Rightarrow> u8 list" where
  "memcpy dst src n = take n src @ drop n dst"

text \<open>
  \<open>m_aci_q_enqueue\<close> returns its boolean and the queue. The copy of \<open>length + 1\<close>
  bytes is a \<open>Bad_Access\<close> when the packet or the slot is shorter than that.
\<close>

definition m_aci_q_enqueue ::
  "nat \<Rightarrow> aci_queue_t \<Rightarrow> hal_aci_data_t \<Rightarrow> fault + (bool \<times> aci_queue_t)" where
  "m_aci_q_enqueue N aci_q p_data =
     (let next = next_index N (tail aci_q) in
      if buffer p_data = [] then Inl Bad_Access
      else
        let len = unat (buffer p_data ! 0) in
        if next = head aci_q then Inr (False, aci_q)
        else if \<not> unat (tail aci_q) < length (aci_data aci_q) then Inl Bad_Access
        else
          let slot = aci_data aci_q ! unat (tail aci_q) in
          if len + 1 \<le> length (buffer p_data) \<and> len + 1 \<le> length (buffer slot) then
            Inr (True,
              aci_q\<lparr>aci_data := (aci_data aci_q)[unat (tail aci_q) :=
                        slot\<lparr>status_byte := 0,
                             buffer := memcpy (buffer slot) (buffer p_data) (len + 1)\<rparr>],
                    tail := next\<rparr>)
          else Inl Bad_Access)"

text \<open>
  \<open>m_aci_q_dequeue\<close>: the flag \<open>dst\<close> says that \<^verbatim>\<open>p_data\<close> is not \<^verbatim>\<open>NULL\<close>. The third
  component of the result is what was copied to \<^verbatim>\<open>*p_data\<close>, \<open>None\<close> when nothing was
  (the queue was empty, or \<^verbatim>\<open>p_data\<close> was \<^verbatim>\<open>NULL\<close>).
\<close>

definition m_aci_q_dequeue ::
  "nat \<Rightarrow> aci_queue_t \<Rightarrow> bool \<Rightarrow> fault + (bool \<times> aci_queue_t \<times> hal_aci_data_t option)" where
  "m_aci_q_dequeue N aci_q dst =
     (if head aci_q = tail aci_q then Inr (False, aci_q, None)
      else if dst then
        (if unat (head aci_q) < length (aci_data aci_q) then
           Inr (True, aci_q\<lparr>head := next_index N (head aci_q)\<rparr>,
                Some (aci_data aci_q ! unat (head aci_q)))
         else Inl Bad_Access)
      else Inr (True, aci_q\<lparr>head := next_index N (head aci_q)\<rparr>, None))"

text \<open>\<open>m_aci_q_peek\<close> copies without a test of the pointer.\<close>

definition m_aci_q_peek ::
  "aci_queue_t \<Rightarrow> bool \<Rightarrow> fault + (bool \<times> hal_aci_data_t option)" where
  "m_aci_q_peek aci_q dst =
     (if head aci_q = tail aci_q then Inr (False, None)
      else if dst \<and> unat (head aci_q) < length (aci_data aci_q) then
        Inr (True, Some (aci_data aci_q ! unat (head aci_q)))
      else Inl Bad_Access)"

definition m_aci_q_is_empty :: "aci_queue_t \<Rightarrow> bool" where
  "m_aci_q_is_empty aci_q = (head aci_q = tail aci_q)"

definition m_aci_q_is_full :: "nat \<Rightarrow> aci_queue_t \<Rightarrow> bool" where
  "m_aci_q_is_full N aci_q =
     (let next = next_index N (tail aci_q) in
      if next = head aci_q then True else False)"

subsection \<open>The state of the transport layer\<close>

text \<open>
  The globals of the file and what it drives on the board. \<open>reqn_pin\<close> lists the
  levels written to the REQN pin, the oldest first. \<open>rdy_attached\<close> is set by
  \<^verbatim>\<open>attachInterrupt\<close> and cleared by \<^verbatim>\<open>detachInterrupt\<close>. \<open>spi_mosi\<close> lists the
  bytes shifted out on the SPI bus; \<open>None\<close> stands for a byte of \<^verbatim>\<open>data_to_send\<close> that
  was never written or lies outside the array. \<open>serial\<close> is what was printed.
  \<open>interface_is_interrupt\<close> is the field of \<^verbatim>\<open>*a_pins_local_ptr\<close>.

  Not part of the state: the pin numbers, the SPI settings, the reset pin and
  \<^verbatim>\<open>sleep_enable()\<close>. The functions of this section run from their first statement to
  their last and give what the source computes when nothing interrupts it; so
  \<open>m_aci_q_is_full\<close> above is the value that the source returns. The global interrupt
  flag that \<^verbatim>\<open>noInterrupts()\<close> and \<^verbatim>\<open>interrupts()\<close> toggle, and the handler that
  runs between two statements of a call, come with the processor further down (\<open>mcu\<close>).
\<close>

datatype serial_item =
  Print_str string | Print_dec u8 | Print_hex "u8 option" | Println_str string

record hal_aci_tl =
  aci_tx_q :: aci_queue_t
  aci_rx_q :: aci_queue_t
  received_data :: hal_aci_data_t
  aci_debug_print :: bool
  interface_is_interrupt :: bool
  reqn_pin :: "u8 list"
  rdy_attached :: bool
  EIMSK :: u8
  spi_mosi :: "u8 option list"
  serial :: "serial_item list"

definition tl_ok :: "nat \<Rightarrow> nat \<Rightarrow> hal_aci_tl \<Rightarrow> bool" where
  "tl_ok N M s =
     (queue_ok N M (aci_tx_q s) \<and> queue_ok N M (aci_rx_q s) \<and> data_ok M (received_data s))"

definition digitalWrite_reqn :: "u8 \<Rightarrow> hal_aci_tl \<Rightarrow> hal_aci_tl" where
  "digitalWrite_reqn v s = s\<lparr>reqn_pin := reqn_pin s @ [v]\<rparr>"

text \<open>
  \<open>spi_readwrite\<close>: the device is a function \<open>dev\<close> from the number of bytes exchanged
  so far to the byte it shifts out next.
\<close>

definition spi_readwrite ::
  "(nat \<Rightarrow> u8) \<Rightarrow> u8 option \<Rightarrow> hal_aci_tl \<Rightarrow> u8 \<times> hal_aci_tl" where
  "spi_readwrite dev aci_byte s =
     (dev (length (spi_mosi s)), s\<lparr>spi_mosi := spi_mosi s @ [aci_byte]\<rparr>)"

text \<open>A byte read for the wire or the serial port: \<open>None\<close> outside the array.\<close>

definition byte_at :: "'a option list \<Rightarrow> nat \<Rightarrow> 'a option" where
  "byte_at xs i = (if i < length xs then xs ! i else None)"

subsection \<open>Diagnostics\<close>

text \<open>
  \<^verbatim>\<open>for (i=0; i<=length; i++)\<close> with \<^verbatim>\<open>uint8_t i\<close>: no end when \<open>length\<close> is 255.
\<close>

partial_function (option) m_print_loop ::
  "u8 \<Rightarrow> u8 \<Rightarrow> u8 list \<Rightarrow> serial_item list \<Rightarrow> serial_item list option" where
  "m_print_loop len i buf out =
     (if i \<le> len then
        m_print_loop len (i + 1) buf
          (out @ [Print_hex (byte_at (map Some buf) (unat i)), Print_str '', ''])
      else Some out)"

declare m_print_loop.simps [code]

definition m_print_aci_data ::
  "hal_aci_data_t option \<Rightarrow> serial_item list \<Rightarrow> fault + serial_item list" where
  "m_print_aci_data p_data out =
     (case p_data of
        None \<Rightarrow> Inl Bad_Access
      | Some d \<Rightarrow>
          (case buffer d of
             [] \<Rightarrow> Inl Bad_Access
           | len # _ \<Rightarrow>
               (case m_print_loop len 0 (buffer d) (out @ [Print_dec len, Print_str '' :'']) of
                  None \<Rightarrow> Inl Diverges
                | Some out' \<Rightarrow> Inr (out' @ [Println_str '''']))))"

subsection \<open>The transaction\<close>

text \<open>
  The loop of \<open>hal_aci_tl_poll_get\<close>. \<open>data_to_send\<close> is the buffer of the local
  variable of that name (its status byte is never read).
\<close>

function hal_aci_tl_poll_get_loop ::
  "(nat \<Rightarrow> u8) \<Rightarrow> u8 \<Rightarrow> u8 option list \<Rightarrow> u8 \<Rightarrow> u8 \<Rightarrow> hal_aci_tl \<Rightarrow> fault + hal_aci_tl" where
  "hal_aci_tl_poll_get_loop dev max_bytes data_to_send byte_cnt byte_sent_cnt s =
     (if byte_cnt < max_bytes then
        (let r = fst (spi_readwrite dev (byte_at data_to_send (unat byte_sent_cnt)) s);
             s1 = snd (spi_readwrite dev (byte_at data_to_send (unat byte_sent_cnt)) s) in
         if unat byte_cnt + 1 < length (buffer (received_data s1)) then
           hal_aci_tl_poll_get_loop dev max_bytes data_to_send (byte_cnt + 1) (byte_sent_cnt + 1)
             (s1\<lparr>received_data := (received_data s1)
                    \<lparr>buffer := (buffer (received_data s1))[unat byte_cnt + 1 := r]\<rparr>\<rparr>)
         else Inl Bad_Access)
      else Inr s)"
  by pat_completeness auto

termination
proof (relation "measure (\<lambda>(dev, max_bytes, data_to_send, byte_cnt, byte_sent_cnt, s).
                    unat max_bytes - unat byte_cnt)", goal_cases)
  case 1
  show ?case by simp
next
  case (2 dev max_bytes data_to_send byte_cnt byte_sent_cnt s r s1)
  from \<open>byte_cnt < max_bytes\<close> have lt: "unat byte_cnt < unat max_bytes"
    by (simp add: word_less_nat_alt)
  moreover have "unat max_bytes < 256"
    using unsigned_less [of max_bytes, where ?'a = nat] by simp
  ultimately have "unat byte_cnt + unat (1::u8) < 2 ^ LENGTH(8)" by simp
  then have "unat (byte_cnt + 1) = unat byte_cnt + unat (1::u8)"
    by (simp only: unat_add_lem)
  with lt show ?case by simp
qed

declare hal_aci_tl_poll_get_loop.simps [simp del]

text \<open>
  The value of \<^verbatim>\<open>max_bytes\<close> when the loop starts (lines 401 to 415), from the length
  byte \<open>lh\<close> of \<^verbatim>\<open>data_to_send\<close> and the length byte \<open>ld\<close> received. The comparisons
  and the subtraction are on \<^verbatim>\<open>int\<close>, the results are stored in a \<^verbatim>\<open>uint8_t\<close>.
\<close>

definition max_bytes_of :: "nat \<Rightarrow> u8 \<Rightarrow> u8 \<Rightarrow> u8" where
  "max_bytes_of M lh ld =
     (let max_bytes = (if 0 = lh then ld
                       else if uint ld > uint lh - 1 then ld
                       else word_of_int (uint lh - 1)) in
      if int M < uint max_bytes then of_nat M else max_bytes)"

text \<open>
  \<open>hal_aci_tl_poll_get\<close> returns \<^verbatim>\<open>&received_data\<close>: the result is the state, whose
  field \<open>received_data\<close> is the packet. When the command queue is empty only byte 0 of
  \<^verbatim>\<open>data_to_send\<close> has been written.
\<close>

definition hal_aci_tl_poll_get ::
  "nat \<Rightarrow> nat \<Rightarrow> (nat \<Rightarrow> u8) \<Rightarrow> hal_aci_tl \<Rightarrow> fault + hal_aci_tl" where
  "hal_aci_tl_poll_get N M dev s0 =
     (let s1 = digitalWrite_reqn 0 s0 in
      case m_aci_q_dequeue N (aci_tx_q s1) True of
        Inl e \<Rightarrow> Inl e
      | Inr (ok, q, copied) \<Rightarrow>
          (let s2 = s1\<lparr>aci_tx_q := q\<rparr>;
               data_to_send = (case copied of Some d \<Rightarrow> map Some (buffer d) | None \<Rightarrow> [Some 0]) in
           case byte_at data_to_send 0 of
             None \<Rightarrow> Inl Bad_Access
           | Some lh \<Rightarrow>
               (let st = fst (spi_readwrite dev (byte_at data_to_send 0) s2);
                    s3 = snd (spi_readwrite dev (byte_at data_to_send 0) s2);
                    s4 = s3\<lparr>received_data := (received_data s3)\<lparr>status_byte := st\<rparr>\<rparr>;
                    ld = fst (spi_readwrite dev (byte_at data_to_send 1) s4);
                    s5 = snd (spi_readwrite dev (byte_at data_to_send 1) s4) in
                if buffer (received_data s5) = [] then Inl Bad_Access
                else
                  (let s6 = s5\<lparr>received_data := (received_data s5)
                                 \<lparr>buffer := (buffer (received_data s5))[0 := ld]\<rparr>\<rparr>;
                       max_bytes = max_bytes_of M lh ld in
                   case hal_aci_tl_poll_get_loop dev max_bytes data_to_send 0 2 s6 of
                     Inl e \<Rightarrow> Inl e
                   | Inr s7 \<Rightarrow>
                       (let s8 = digitalWrite_reqn 1 s7;
                            s9 = (if interface_is_interrupt s8
                                  then s8\<lparr>rdy_attached := True\<rparr> else s8) in
                        if \<not> m_aci_q_is_empty (aci_tx_q s9)
                        then Inr (digitalWrite_reqn 0 s9) else Inr s9)))))"

subsection \<open>The RDYN handler and the polling of the line\<close>

definition m_rdy_line_handle ::
  "nat \<Rightarrow> nat \<Rightarrow> (nat \<Rightarrow> u8) \<Rightarrow> hal_aci_tl \<Rightarrow> fault + hal_aci_tl" where
  "m_rdy_line_handle N M dev s0 =
     (let s1 = (if interface_is_interrupt s0 then s0\<lparr>rdy_attached := False\<rparr> else s0) in
      case hal_aci_tl_poll_get N M dev s1 of
        Inl e \<Rightarrow> Inl e
      | Inr s2 \<Rightarrow>
          (case buffer (received_data s2) of
             [] \<Rightarrow> Inl Bad_Access
           | b0 # _ \<Rightarrow>
               if b0 > 0 then
                 (case m_aci_q_enqueue N (aci_rx_q s2) (received_data s2) of
                    Inl e \<Rightarrow> Inl e
                  | Inr (ok, q) \<Rightarrow>
                      if \<not> ok then Inl Halted
                      else
                        (let s3 = s2\<lparr>aci_rx_q := q\<rparr> in
                         if m_aci_q_is_full N (aci_rx_q s3) then
                           (if True = interface_is_interrupt s3
                            then Inr (s3\<lparr>EIMSK := EIMSK s3 AND NOT 2\<rparr>)
                            else Inr s3)
                         else Inr s3))
               else Inr s2))"

text \<open>\<open>rdyn\<close> is what \<^verbatim>\<open>digitalRead(a_pins_local_ptr->rdyn_pin)\<close> returns.\<close>

definition m_aci_device_query ::
  "nat \<Rightarrow> nat \<Rightarrow> (nat \<Rightarrow> u8) \<Rightarrow> int \<Rightarrow> hal_aci_tl \<Rightarrow> fault + hal_aci_tl" where
  "m_aci_device_query N M dev rdyn s =
     (if 0 = rdyn then m_rdy_line_handle N M dev s
      else if False = m_aci_q_is_empty (aci_tx_q s) \<and> False = m_aci_q_is_full N (aci_rx_q s)
      then Inr (digitalWrite_reqn 0 s)
      else Inr s)"

subsection \<open>The interface\<close>

text \<open>
  \<open>hal_aci_tl_event_peek\<close> and \<open>hal_aci_tl_event_get\<close> return their boolean, what was
  copied to \<^verbatim>\<open>*p_aci_data\<close> (\<open>None\<close>: nothing) and the state. \<open>dst\<close> says that the
  pointer is not \<^verbatim>\<open>NULL\<close>.
\<close>

definition hal_aci_tl_event_peek ::
  "nat \<Rightarrow> nat \<Rightarrow> (nat \<Rightarrow> u8) \<Rightarrow> int \<Rightarrow> bool \<Rightarrow> hal_aci_tl
     \<Rightarrow> fault + (bool \<times> hal_aci_data_t option \<times> hal_aci_tl)" where
  "hal_aci_tl_event_peek N M dev rdyn dst s0 =
     (case (if \<not> interface_is_interrupt s0 then m_aci_device_query N M dev rdyn s0 else Inr s0) of
        Inl e \<Rightarrow> Inl e
      | Inr s1 \<Rightarrow>
          (case m_aci_q_peek (aci_rx_q s1) dst of
             Inl e \<Rightarrow> Inl e
           | Inr (ok, copied) \<Rightarrow>
               if ok then
                 (if aci_debug_print s1 then
                    (case m_print_aci_data copied (serial s1 @ [Print_str '' E'']) of
                       Inl e \<Rightarrow> Inl e
                     | Inr out \<Rightarrow> Inr (True, copied, s1\<lparr>serial := out\<rparr>))
                  else Inr (True, copied, s1))
               else Inr (False, None, s1)))"

definition hal_aci_tl_event_get ::
  "nat \<Rightarrow> nat \<Rightarrow> (nat \<Rightarrow> u8) \<Rightarrow> int \<Rightarrow> bool \<Rightarrow> hal_aci_tl
     \<Rightarrow> fault + (bool \<times> hal_aci_data_t option \<times> hal_aci_tl)" where
  "hal_aci_tl_event_get N M dev rdyn dst s0 =
     (case (if \<not> interface_is_interrupt s0 then m_aci_device_query N M dev rdyn s0 else Inr s0) of
        Inl e \<Rightarrow> Inl e
      | Inr s1 \<Rightarrow>
          (let was_full = m_aci_q_is_full N (aci_rx_q s1) in
           case m_aci_q_dequeue N (aci_rx_q s1) dst of
             Inl e \<Rightarrow> Inl e
           | Inr (ok, q, copied) \<Rightarrow>
               (let s2 = s1\<lparr>aci_rx_q := q\<rparr> in
                if ok then
                  (case (if aci_debug_print s2
                         then m_print_aci_data copied (serial s2 @ [Print_str '' E''])
                         else Inr (serial s2)) of
                     Inl e \<Rightarrow> Inl e
                   | Inr out \<Rightarrow>
                       (let s3 = s2\<lparr>serial := out\<rparr> in
                        if was_full \<and> interface_is_interrupt s3
                        then Inr (True, copied, s3\<lparr>EIMSK := EIMSK s3 OR 2\<rparr>)
                        else Inr (True, copied, s3)))
                else Inr (False, None, s2))))"

text \<open>
  \<open>hal_aci_tl_init\<close>: \<open>irq\<close> is \<^verbatim>\<open>a_pins->interface_is_interrupt\<close>. The settings of
  the SPI bus and of the pins and the reset of the nRF8001 are outside the state.
\<close>

definition hal_aci_tl_init :: "nat \<Rightarrow> bool \<Rightarrow> hal_aci_tl \<Rightarrow> fault + hal_aci_tl" where
  "hal_aci_tl_init N irq s0 =
     (if buffer (received_data s0) = [] then Inl Bad_Access
      else
        (let s1 = s0\<lparr>received_data := (received_data s0)
                       \<lparr>buffer := (buffer (received_data s0))[0 := 0]\<rparr>,
                    aci_debug_print := False,
                    interface_is_interrupt := irq\<rparr> in
         case m_aci_q_init N (aci_tx_q s1) of
           Inl e \<Rightarrow> Inl e
         | Inr tx \<Rightarrow>
             (case m_aci_q_init N (aci_rx_q s1) of
                Inl e \<Rightarrow> Inl e
              | Inr rx \<Rightarrow>
                  (let s2 = digitalWrite_reqn 1 (s1\<lparr>aci_tx_q := tx, aci_rx_q := rx\<rparr>) in
                   if irq then Inr (s2\<lparr>rdy_attached := True\<rparr>) else Inr s2))))"

definition hal_aci_debug_print :: "bool \<Rightarrow> hal_aci_tl \<Rightarrow> hal_aci_tl" where
  "hal_aci_debug_print enable s = s\<lparr>aci_debug_print := enable\<rparr>"

definition hal_aci_tl_send ::
  "nat \<Rightarrow> nat \<Rightarrow> hal_aci_data_t \<Rightarrow> hal_aci_tl \<Rightarrow> fault + (bool \<times> hal_aci_tl)" where
  "hal_aci_tl_send N M p_aci_cmd s0 =
     (case buffer p_aci_cmd of
        [] \<Rightarrow> Inl Bad_Access
      | len # _ \<Rightarrow>
          if int M < uint len then Inr (False, s0)
          else
            (case m_aci_q_enqueue N (aci_tx_q s0) p_aci_cmd of
               Inl e \<Rightarrow> Inl e
             | Inr (ok, q) \<Rightarrow>
                 (let s1 = s0\<lparr>aci_tx_q := q\<rparr>;
                      ret_val = ok;
                      s2 = (if ok then digitalWrite_reqn 0 s1 else s1) in
                  if True = aci_debug_print s2 \<and> True = ret_val then
                    (case m_print_aci_data (Some p_aci_cmd) (serial s2 @ [Print_str ''C'']) of
                       Inl e \<Rightarrow> Inl e
                     | Inr out \<Rightarrow> Inr (ret_val, s2\<lparr>serial := out\<rparr>))
                  else Inr (ret_val, s2))))"

definition m_aci_q_flush :: "nat \<Rightarrow> hal_aci_tl \<Rightarrow> fault + hal_aci_tl" where
  "m_aci_q_flush N s =
     (case m_aci_q_init N (aci_tx_q s) of
        Inl e \<Rightarrow> Inl e
      | Inr tx \<Rightarrow>
          (case m_aci_q_init N (aci_rx_q (s\<lparr>aci_tx_q := tx\<rparr>)) of
             Inl e \<Rightarrow> Inl e
           | Inr rx \<Rightarrow> Inr (s\<lparr>aci_tx_q := tx, aci_rx_q := rx\<rparr>)))"

definition hal_aci_tl_rx_q_empty :: "hal_aci_tl \<Rightarrow> bool" where
  "hal_aci_tl_rx_q_empty s = m_aci_q_is_empty (aci_rx_q s)"

definition hal_aci_tl_rx_q_full :: "nat \<Rightarrow> hal_aci_tl \<Rightarrow> bool" where
  "hal_aci_tl_rx_q_full N s = m_aci_q_is_full N (aci_rx_q s)"

definition hal_aci_tl_tx_q_empty :: "hal_aci_tl \<Rightarrow> bool" where
  "hal_aci_tl_tx_q_empty s = m_aci_q_is_empty (aci_tx_q s)"

definition hal_aci_tl_tx_q_full :: "nat \<Rightarrow> hal_aci_tl \<Rightarrow> bool" where
  "hal_aci_tl_tx_q_full N s = m_aci_q_is_full N (aci_tx_q s)"

section \<open>Notions for the properties\<close>

subsection \<open>The queue as a list of packets\<close>

text \<open>
  \<open>q_count\<close> is the number of packets a queue holds and \<open>q_contents\<close> lists them, the
  oldest first. \<open>stored slot p\<close> is the slot after \<open>p\<close> was copied into it, and
  \<open>same_packet p d\<close> says that \<open>d\<close> is \<open>p\<close> as far as a queue keeps a packet: the length
  byte and the payload it counts, with status byte 0.
\<close>

definition q_count :: "nat \<Rightarrow> aci_queue_t \<Rightarrow> nat" where
  "q_count N q = (unat (tail q) + N - unat (head q)) mod N"

definition q_contents :: "nat \<Rightarrow> aci_queue_t \<Rightarrow> hal_aci_data_t list" where
  "q_contents N q = map (\<lambda>k. aci_data q ! ((unat (head q) + k) mod N)) [0..<q_count N q]"

definition stored :: "hal_aci_data_t \<Rightarrow> hal_aci_data_t \<Rightarrow> hal_aci_data_t" where
  "stored slot p =
     slot\<lparr>status_byte := 0, buffer := memcpy (buffer slot) (buffer p) (unat (buffer p ! 0) + 1)\<rparr>"

definition same_packet :: "hal_aci_data_t \<Rightarrow> hal_aci_data_t \<Rightarrow> bool" where
  "same_packet p d =
     (status_byte d = 0 \<and>
      take (unat (buffer p ! 0) + 1) (buffer d) = take (unat (buffer p ! 0) + 1) (buffer p))"

definition pushed :: "nat \<Rightarrow> aci_queue_t \<Rightarrow> hal_aci_data_t \<Rightarrow> aci_queue_t" where
  "pushed N q p =
     q\<lparr>aci_data := (aci_data q)[unat (tail q) := stored (aci_data q ! unat (tail q)) p],
       tail := next_index N (tail q)\<rparr>"

definition popped :: "nat \<Rightarrow> aci_queue_t \<Rightarrow> aci_queue_t" where
  "popped N q = q\<lparr>head := next_index N (head q)\<rparr>"

definition zero2 :: "hal_aci_data_t \<Rightarrow> hal_aci_data_t" where
  "zero2 x = x\<lparr>buffer := (buffer x)[0 := 0, 1 := 0]\<rparr>"

subsection \<open>Sequences of queue operations\<close>

text \<open>
  \<open>q_run\<close> applies a sequence of \<open>m_aci_q_enqueue\<close> and \<open>m_aci_q_dequeue\<close> calls to a
  queue and counts the calls that returned true: \<open>e\<close> enqueues and \<open>d\<close> dequeues.
  \<open>packet_ok M p\<close>: \<open>p\<close> is a \<^verbatim>\<open>hal_aci_data_t\<close> whose length byte is at most \<open>M\<close>.
\<close>

datatype q_op = Enqueue hal_aci_data_t | Dequeue bool

fun q_run :: "nat \<Rightarrow> q_op list \<Rightarrow> aci_queue_t \<times> nat \<times> nat \<Rightarrow> fault + (aci_queue_t \<times> nat \<times> nat)" where
  "q_run N [] st = Inr st"
| "q_run N (Enqueue p # ops) (q, e, d) =
     (case m_aci_q_enqueue N q p of
        Inl f \<Rightarrow> Inl f
      | Inr (ok, q') \<Rightarrow> q_run N ops (q', if ok then e + 1 else e, d))"
| "q_run N (Dequeue dst # ops) (q, e, d) =
     (case m_aci_q_dequeue N q dst of
        Inl f \<Rightarrow> Inl f
      | Inr (ok, q', c) \<Rightarrow> q_run N ops (q', e, if ok then d + 1 else d))"

definition packet_ok :: "nat \<Rightarrow> hal_aci_data_t \<Rightarrow> bool" where
  "packet_ok M p = (data_ok M p \<and> unat (buffer p ! 0) \<le> M)"

fun op_ok :: "nat \<Rightarrow> q_op \<Rightarrow> bool" where
  "op_ok M (Enqueue p) = packet_ok M p"
| "op_ok M (Dequeue dst) = True"

text \<open>
  \<open>enqueue_all\<close> enqueues a list of packets one after the other and returns the booleans
  of the calls; \<open>dequeue_n\<close> calls \<open>m_aci_q_dequeue\<close> \<open>n\<close> times with a destination and
  returns, for each call, its boolean and the packet copied out.
\<close>

fun enqueue_all ::
  "nat \<Rightarrow> aci_queue_t \<Rightarrow> hal_aci_data_t list \<Rightarrow> fault + (bool list \<times> aci_queue_t)" where
  "enqueue_all N q [] = Inr ([], q)"
| "enqueue_all N q (p # ps) =
     (case m_aci_q_enqueue N q p of
        Inl f \<Rightarrow> Inl f
      | Inr (ok, q') \<Rightarrow>
          (case enqueue_all N q' ps of
             Inl f \<Rightarrow> Inl f
           | Inr (oks, q'') \<Rightarrow> Inr (ok # oks, q'')))"

fun dequeue_n ::
  "nat \<Rightarrow> aci_queue_t \<Rightarrow> nat
     \<Rightarrow> fault + ((bool \<times> hal_aci_data_t option) list \<times> aci_queue_t)" where
  "dequeue_n N q 0 = Inr ([], q)"
| "dequeue_n N q (Suc n) =
     (case m_aci_q_dequeue N q True of
        Inl f \<Rightarrow> Inl f
      | Inr (ok, q', c) \<Rightarrow>
          (case dequeue_n N q' n of
             Inl f \<Rightarrow> Inl f
           | Inr (rs, q'') \<Rightarrow> Inr ((ok, c) # rs, q'')))"

subsection \<open>Concrete packets, queues and states\<close>

text \<open>Concrete packets, queues and states, for the instances below.\<close>

definition mk_data :: "u8 list \<Rightarrow> hal_aci_data_t" where
  "mk_data bs = \<lparr>status_byte = 0, buffer = bs\<rparr>"

definition mk_queue :: "u8 list list \<Rightarrow> u8 \<Rightarrow> u8 \<Rightarrow> aci_queue_t" where
  "mk_queue bss h t = \<lparr>aci_data = map mk_data bss, head = h, tail = t\<rparr>"

definition mk_tl ::
  "aci_queue_t \<Rightarrow> aci_queue_t \<Rightarrow> hal_aci_data_t \<Rightarrow> bool \<Rightarrow> u8 \<Rightarrow> hal_aci_tl" where
  "mk_tl tx rx rd irq eimsk =
     \<lparr>aci_tx_q = tx, aci_rx_q = rx, received_data = rd, aci_debug_print = False,
      interface_is_interrupt = irq, reqn_pin = [], rdy_attached = irq, EIMSK = eimsk,
      spi_mosi = [], serial = []\<rparr>"

subsection \<open>Lengths declared in a transaction\<close>

text \<open>
  \<open>host_length tx\<close> is the length byte the host declares in a transaction that starts
  with the command queue \<open>tx\<close>: byte 0 of the packet dequeued, 0 when the queue is empty.
  \<open>negotiated M lh ld\<close> is the number of bytes after the two header bytes as the
  specification gives it, from the length \<open>lh\<close> of the host and \<open>ld\<close> of the device.
\<close>

definition host_length :: "aci_queue_t \<Rightarrow> u8" where
  "host_length tx =
     (if m_aci_q_is_empty tx then 0 else buffer (aci_data tx ! unat (head tx)) ! 0)"

definition negotiated :: "nat \<Rightarrow> nat \<Rightarrow> nat \<Rightarrow> nat" where
  "negotiated M lh ld = min M (if lh = 0 then ld else max ld (lh - 1))"

subsection \<open>The transport layer as a transition system\<close>

text \<open>
  What happens to the transport layer after \<open>hal_aci_tl_init\<close>: the RDYN interrupt
  fires, or the application calls a function of the interface. \<open>Call_event_get\<close> and
  \<open>Call_event_peek\<close> carry the level of the RDYN pin that the call reads in polled mode
  and the flag of their destination pointer. The interrupt enters \<open>m_rdy_line_handle\<close>
  only when it is attached and bit 1 of \<open>EIMSK\<close> is set (\<open>rdy_enabled\<close>); otherwise
  nothing happens. Every step of \<open>tl_step\<close> runs to completion: the handler does not
  interrupt a call of the interface half way, nor itself. The next subsection lets it.
\<close>

datatype tl_event =
  Rdy_interrupt
  | Call_send hal_aci_data_t
  | Call_event_get int bool
  | Call_event_peek int bool
  | Call_flush
  | Call_debug_print bool

definition rdy_enabled :: "hal_aci_tl \<Rightarrow> bool" where
  "rdy_enabled s = (interface_is_interrupt s \<and> rdy_attached s \<and> bit (EIMSK s) 1)"

definition tl_step ::
  "nat \<Rightarrow> nat \<Rightarrow> (nat \<Rightarrow> u8) \<Rightarrow> tl_event \<Rightarrow> hal_aci_tl \<Rightarrow> fault + hal_aci_tl" where
  "tl_step N M dev ev s =
     (case ev of
        Rdy_interrupt \<Rightarrow> if rdy_enabled s then m_rdy_line_handle N M dev s else Inr s
      | Call_send p \<Rightarrow>
          (case hal_aci_tl_send N M p s of Inl e \<Rightarrow> Inl e | Inr (ok, s') \<Rightarrow> Inr s')
      | Call_event_get rdyn dst \<Rightarrow>
          (case hal_aci_tl_event_get N M dev rdyn dst s of
             Inl e \<Rightarrow> Inl e | Inr (ok, copied, s') \<Rightarrow> Inr s')
      | Call_event_peek rdyn dst \<Rightarrow>
          (case hal_aci_tl_event_peek N M dev rdyn dst s of
             Inl e \<Rightarrow> Inl e | Inr (ok, copied, s') \<Rightarrow> Inr s')
      | Call_flush \<Rightarrow> m_aci_q_flush N s
      | Call_debug_print enable \<Rightarrow> Inr (hal_aci_debug_print enable s))"

fun tl_run ::
  "nat \<Rightarrow> nat \<Rightarrow> (nat \<Rightarrow> u8) \<Rightarrow> tl_event list \<Rightarrow> hal_aci_tl \<Rightarrow> fault + hal_aci_tl" where
  "tl_run N M dev [] s = Inr s"
| "tl_run N M dev (ev # evs) s =
     (case tl_step N M dev ev s of Inl e \<Rightarrow> Inl e | Inr s' \<Rightarrow> tl_run N M dev evs s')"

text \<open>
  The invariant of the steps: the state is well formed, no packet held by the event
  queue has the length byte 0, and in interrupt mode bit 1 of \<open>EIMSK\<close> is clear while
  the event queue is full.
\<close>

definition rx_inv :: "nat \<Rightarrow> nat \<Rightarrow> hal_aci_tl \<Rightarrow> bool" where
  "rx_inv N M s =
     (tl_ok N M s \<and> list_all (\<lambda>d. buffer d ! 0 \<noteq> 0) (q_contents N (aci_rx_q s)) \<and>
      (interface_is_interrupt s \<and> m_aci_q_is_full N (aci_rx_q s) \<longrightarrow> \<not> bit (EIMSK s) 1))"

fun is_event_get :: "tl_event \<Rightarrow> bool" where
  "is_event_get (Call_event_get rdyn dst) = True"
| "is_event_get ev = False"

subsection \<open>Interruption by the RDYN handler\<close>

text \<open>
  Modelled from the spec: when the handler runs, which the source leaves to the
  processor. The specification has "an interrupt handler that can preempt it [the main
  call sequence] at any instruction boundary (in edge-interrupt mode)". The processor
  enters \<open>m_rdy_line_handle\<close> when the RDYN line is low (the interrupt is attached for
  the level \<^verbatim>\<open>LOW\<close>), the interrupt is enabled (\<open>rdy_enabled\<close>) and the global
  interrupt flag is set. It clears the flag on entry and sets it when the handler
  returns; \<^verbatim>\<open>noInterrupts()\<close> clears the flag and \<^verbatim>\<open>interrupts()\<close> sets it.

  \<open>mcu\<close> adds to the state of the transport layer the flag (\<open>sreg_i\<close>) and the
  functions that were interrupted and wait to continue, the innermost first, each with
  the value that \<^verbatim>\<open>m_aci_q_is_full\<close> returned to it (for \<open>hal_aci_tl_event_get\<close> also
  the flag of its pointer). \<open>m_aci_q_is_full_rx\<close> is the call
  \<^verbatim>\<open>m_aci_q_is_full(&aci_rx_q)\<close> with its lines 122 and 134: whoever calls it, it
  returns with the flag set.
\<close>

datatype frame = In_rdy_line_handle bool | In_event_get bool bool

record mcu =
  tl_state :: hal_aci_tl
  sreg_i :: bool
  interrupted :: "frame list"

definition noInterrupts :: "mcu \<Rightarrow> mcu" where
  "noInterrupts c = c\<lparr>sreg_i := False\<rparr>"

definition interrupts :: "mcu \<Rightarrow> mcu" where
  "interrupts c = c\<lparr>sreg_i := True\<rparr>"

definition m_aci_q_is_full_rx :: "nat \<Rightarrow> mcu \<Rightarrow> bool \<times> mcu" where
  "m_aci_q_is_full_rx N c0 =
     (let c1 = noInterrupts c0;
          state = m_aci_q_is_full N (aci_rx_q (tl_state c1));
          c2 = interrupts c1 in
      (state, c2))"

text \<open>
  The two functions that act on the value of \<^verbatim>\<open>m_aci_q_is_full(&aci_rx_q)\<close> are cut
  where that call returns. \<open>m_rdy_line_handle_to_is_full\<close> is the handler down to
  there; it gives the value returned, or \<open>None\<close> when the handler received nothing and
  has returned without the call. \<open>m_rdy_line_handle_from_is_full\<close> is the rest of the
  handler (lines 203 to 210). \<open>hal_aci_tl_event_get_to_is_full\<close> is
  \<open>hal_aci_tl_event_get\<close> down to the value of \<^verbatim>\<open>was_full\<close> (line 272) and
  \<open>hal_aci_tl_event_get_from_is_full\<close> the rest of it (lines 274 to 290).
\<close>

definition m_rdy_line_handle_to_is_full ::
  "nat \<Rightarrow> nat \<Rightarrow> (nat \<Rightarrow> u8) \<Rightarrow> mcu \<Rightarrow> fault + (bool option \<times> mcu)" where
  "m_rdy_line_handle_to_is_full N M dev c0 =
     (let s0 = tl_state c0;
          s1 = (if interface_is_interrupt s0 then s0\<lparr>rdy_attached := False\<rparr> else s0) in
      case hal_aci_tl_poll_get N M dev s1 of
        Inl e \<Rightarrow> Inl e
      | Inr s2 \<Rightarrow>
          (case buffer (received_data s2) of
             [] \<Rightarrow> Inl Bad_Access
           | b0 # _ \<Rightarrow>
               if b0 > 0 then
                 (case m_aci_q_enqueue N (aci_rx_q s2) (received_data s2) of
                    Inl e \<Rightarrow> Inl e
                  | Inr (ok, q) \<Rightarrow>
                      if \<not> ok then Inl Halted
                      else
                        (let c3 = c0\<lparr>tl_state := s2\<lparr>aci_rx_q := q\<rparr>\<rparr> in
                         Inr (Some (fst (m_aci_q_is_full_rx N c3)),
                              snd (m_aci_q_is_full_rx N c3))))
               else Inr (None, c0\<lparr>tl_state := s2\<rparr>)))"

definition m_rdy_line_handle_from_is_full :: "bool \<Rightarrow> mcu \<Rightarrow> mcu" where
  "m_rdy_line_handle_from_is_full full c3 =
     (if full then
        (if True = interface_is_interrupt (tl_state c3)
         then c3\<lparr>tl_state := (tl_state c3)\<lparr>EIMSK := EIMSK (tl_state c3) AND NOT 2\<rparr>\<rparr>
         else c3)
      else c3)"

definition hal_aci_tl_event_get_to_is_full ::
  "nat \<Rightarrow> nat \<Rightarrow> (nat \<Rightarrow> u8) \<Rightarrow> int \<Rightarrow> mcu \<Rightarrow> fault + (bool \<times> mcu)" where
  "hal_aci_tl_event_get_to_is_full N M dev rdyn c0 =
     (case (if \<not> interface_is_interrupt (tl_state c0)
            then m_aci_device_query N M dev rdyn (tl_state c0) else Inr (tl_state c0)) of
        Inl e \<Rightarrow> Inl e
      | Inr s1 \<Rightarrow> Inr (m_aci_q_is_full_rx N (c0\<lparr>tl_state := s1\<rparr>)))"

definition hal_aci_tl_event_get_from_is_full ::
  "nat \<Rightarrow> bool \<Rightarrow> bool \<Rightarrow> mcu \<Rightarrow> fault + (bool \<times> hal_aci_data_t option \<times> mcu)" where
  "hal_aci_tl_event_get_from_is_full N was_full dst c1 =
     (let s1 = tl_state c1 in
      case m_aci_q_dequeue N (aci_rx_q s1) dst of
        Inl e \<Rightarrow> Inl e
      | Inr (ok, q, copied) \<Rightarrow>
          (let s2 = s1\<lparr>aci_rx_q := q\<rparr> in
           if ok then
             (case (if aci_debug_print s2
                    then m_print_aci_data copied (serial s2 @ [Print_str '' E''])
                    else Inr (serial s2)) of
                Inl e \<Rightarrow> Inl e
              | Inr out \<Rightarrow>
                  (let s3 = s2\<lparr>serial := out\<rparr> in
                   if was_full \<and> interface_is_interrupt s3
                   then Inr (True, copied, c1\<lparr>tl_state := s3\<lparr>EIMSK := EIMSK s3 OR 2\<rparr>\<rparr>)
                   else Inr (True, copied, c1\<lparr>tl_state := s3\<rparr>)))
           else Inr (False, None, c1\<lparr>tl_state := s2\<rparr>)))"

text \<open>
  What happens on the processor. \<open>Rdy_low\<close>: the RDYN line is low; when the flag is
  set and the interrupt is enabled, the handler is entered, and it runs to the return
  of \<^verbatim>\<open>m_aci_q_is_full\<close>, where it waits, or to its own return when it received
  nothing. \<open>Enter_event_get\<close>: the application, which is not within a call, calls
  \<open>hal_aci_tl_event_get\<close>, and the call runs to the return of \<^verbatim>\<open>m_aci_q_is_full\<close>,
  where it waits. \<open>Resume\<close>: the innermost function that waits runs to its end. The
  handler is entered between these steps only, so every run of \<open>mcu_run\<close> is a run of
  the program, and the program has more of them. \<open>mcu_start\<close> is the processor when
  \<open>hal_aci_tl_init\<close> has returned: the flag is set and nothing waits.
\<close>

datatype mcu_event = Rdy_low | Enter_event_get int bool | Resume

definition mcu_step ::
  "nat \<Rightarrow> nat \<Rightarrow> (nat \<Rightarrow> u8) \<Rightarrow> mcu_event \<Rightarrow> mcu \<Rightarrow> fault + mcu" where
  "mcu_step N M dev ev c =
     (case ev of
        Rdy_low \<Rightarrow>
          if sreg_i c \<and> rdy_enabled (tl_state c) then
            (case m_rdy_line_handle_to_is_full N M dev (c\<lparr>sreg_i := False\<rparr>) of
               Inl e \<Rightarrow> Inl e
             | Inr (None, c') \<Rightarrow> Inr (c'\<lparr>sreg_i := True\<rparr>)
             | Inr (Some full, c') \<Rightarrow>
                 Inr (c'\<lparr>interrupted := In_rdy_line_handle full # interrupted c'\<rparr>))
          else Inr c
      | Enter_event_get rdyn dst \<Rightarrow>
          if interrupted c = [] then
            (case hal_aci_tl_event_get_to_is_full N M dev rdyn c of
               Inl e \<Rightarrow> Inl e
             | Inr (was_full, c') \<Rightarrow> Inr (c'\<lparr>interrupted := [In_event_get was_full dst]\<rparr>))
          else Inr c
      | Resume \<Rightarrow>
          (case interrupted c of
             [] \<Rightarrow> Inr c
           | In_rdy_line_handle full # fs \<Rightarrow>
               Inr ((m_rdy_line_handle_from_is_full full c)\<lparr>sreg_i := True, interrupted := fs\<rparr>)
           | In_event_get was_full dst # fs \<Rightarrow>
               (case hal_aci_tl_event_get_from_is_full N was_full dst c of
                  Inl e \<Rightarrow> Inl e
                | Inr (ok, copied, c') \<Rightarrow> Inr (c'\<lparr>interrupted := fs\<rparr>))))"

fun mcu_run ::
  "nat \<Rightarrow> nat \<Rightarrow> (nat \<Rightarrow> u8) \<Rightarrow> mcu_event list \<Rightarrow> mcu \<Rightarrow> fault + mcu" where
  "mcu_run N M dev [] c = Inr c"
| "mcu_run N M dev (ev # evs) c =
     (case mcu_step N M dev ev c of Inl e \<Rightarrow> Inl e | Inr c' \<Rightarrow> mcu_run N M dev evs c')"

definition mcu_start :: "hal_aci_tl \<Rightarrow> mcu" where
  "mcu_start s = \<lparr>tl_state = s, sreg_i = True, interrupted = []\<rparr>"

section \<open>Bytes\<close>

lemma u8_bound: "unat (b::u8) < 256"
  using unsigned_less [of b, where ?'a = nat] by simp

lemma u8_succ: "(a::u8) < b \<Longrightarrow> unat (a + 1) = unat a + 1"
proof -
  assume "a < b"
  then have "unat a < unat b" by (simp add: word_less_nat_alt)
  moreover have "unat b < 256" by (rule u8_bound)
  ultimately have "unat a + unat (1::u8) < 2 ^ LENGTH(8)" by simp
  then have "unat (a + 1) = unat a + unat (1::u8)" by (simp only: unat_add_lem)
  then show ?thesis by simp
qed

lemma u8_of_nat: "n < 256 \<Longrightarrow> unat (of_nat n :: u8) = n"
  by (simp add: unat_of_nat)

lemma u8_succ_lt: "unat (a::u8) < 255 \<Longrightarrow> unat (a + 1) = unat a + 1"
proof -
  assume "unat a < 255"
  then have "unat a + unat (1::u8) < 2 ^ LENGTH(8)" by simp
  then have "unat (a + 1) = unat a + unat (1::u8)" by (simp only: unat_add_lem)
  then show ?thesis by simp
qed

section \<open>The loops return\<close>

lemma init_loop_result:
  assumes "N \<le> 255" "length d = N" "\<forall>x\<in>set d. 1 < length (buffer x)" "unat loop \<le> N"
  shows "m_aci_q_init_loop N loop d =
           Some (Inr (take (unat loop) d @ map zero2 (drop (unat loop) d)))"
  using assms
proof (induction "N - unat loop" arbitrary: loop d)
  case 0
  then have "unat loop = N" by simp
  with 0 show ?case
    by (subst m_aci_q_init_loop.simps) simp
next
  case (Suc k)
  then have lt: "unat loop < N" by simp
  with Suc.prems have l255: "unat loop < 255" by simp
  have su: "unat (loop + 1) = unat loop + 1"
    using l255 by (rule u8_succ_lt)
  let ?d = "d[unat loop := zero2 (d ! unat loop)]"
  have in_set: "d ! unat loop \<in> set d"
    using lt Suc.prems(2) by simp
  have big: "1 < length (buffer (d ! unat loop))"
    using in_set Suc.prems(3) by blast
  have all': "\<forall>x\<in>set ?d. 1 < length (buffer x)"
  proof
    fix x assume "x \<in> set ?d"
    then have "x = zero2 (d ! unat loop) \<or> x \<in> set d"
      using set_update_subset_insert [of d "unat loop" "zero2 (d ! unat loop)"] by auto
    then show "1 < length (buffer x)"
      using big Suc.prems(3) by (auto simp: zero2_def)
  qed
  have IH: "m_aci_q_init_loop N (loop + 1) ?d =
           Some (Inr (take (unat (loop + 1)) ?d @ map zero2 (drop (unat (loop + 1)) ?d)))"
    using Suc.hyps(1)[of "loop + 1" ?d] Suc.hyps(2) Suc.prems(1,2) all' lt su by simp
  have shape: "take (unat loop + 1) ?d @ map zero2 (drop (unat loop + 1) ?d) =
               take (unat loop) d @ map zero2 (drop (unat loop) d)"
    using lt Suc.prems(2)
    by (simp add: take_Suc_conv_app_nth Cons_nth_drop_Suc [symmetric])
  show ?case
    apply (subst m_aci_q_init_loop.simps)
    using lt Suc.prems(2) big IH shape su
    by (simp add: zero2_def)
qed

lemma m_aci_q_init_result:
  assumes "N \<le> 255" "0 < M" "slots_ok N M q"
  shows "m_aci_q_init N q = Inr (q\<lparr>aci_data := map zero2 (aci_data q), head := 0, tail := 0\<rparr>)"
proof -
  have "\<forall>x\<in>set (aci_data q). 1 < length (buffer x)"
    using assms(2,3) by (auto simp: slots_ok_def list_all_iff data_ok_def)
  then have "m_aci_q_init_loop N 0 (aci_data q) = Some (Inr (map zero2 (aci_data q)))"
    using init_loop_result [of N "aci_data q" 0] assms(1,3) by (simp add: slots_ok_def)
  then show ?thesis by (simp add: m_aci_q_init_def)
qed

lemma zero2_ok: "data_ok M x \<Longrightarrow> data_ok M (zero2 x)"
  by (simp add: data_ok_def zero2_def)

lemma zero2_idem: "zero2 (zero2 x) = zero2 x"
proof -
  have "xs[0 := 0, 1 := 0, 0 := 0, 1 := 0] = xs[0 := 0, 1 := 0]" for xs :: "u8 list"
    by (cases xs) simp_all
  then show ?thesis by (simp add: zero2_def)
qed

lemma print_loop_returns:
  assumes "len \<noteq> 255" "unat i \<le> unat len + 1"
  shows "\<exists>out'. m_print_loop len i buf out = Some out'"
  using assms
proof (induction "unat len + 1 - unat i" arbitrary: i out)
  case 0
  then have "\<not> i \<le> len" by (simp add: word_le_nat_alt)
  then show ?case by (subst m_print_loop.simps) simp
next
  case (Suc k)
  then have le: "i \<le> len" by (simp add: word_le_nat_alt)
  have "unat len < 255"
    using u8_bound [of len] Suc.prems(1) by (simp add: word_unat_eq_iff)
  with le have "unat i < 255" by (simp add: word_le_nat_alt)
  then have su: "unat (i + 1) = unat i + 1" by (rule u8_succ_lt)
  have "\<exists>out'. m_print_loop len (i + 1) buf
          (out @ [Print_hex (byte_at (map Some buf) (unat i)), Print_str '', '']) = Some out'"
    using Suc.hyps(1)[of "i + 1"] Suc.hyps(2) Suc.prems su le by (simp add: word_le_nat_alt)
  then show ?case using le by (subst m_print_loop.simps) simp
qed

lemma m_print_aci_data_returns:
  assumes "buffer d \<noteq> []" "buffer d ! 0 \<noteq> 255"
  shows "\<exists>out'. m_print_aci_data (Some d) out = Inr out'"
proof -
  obtain len rest where b: "buffer d = len # rest"
    using assms(1) by (cases "buffer d") auto
  with assms(2) have "len \<noteq> 255" by simp
  then obtain out' where
    "m_print_loop len 0 (buffer d) (out @ [Print_dec len, Print_str '' :'']) = Some out'"
    using print_loop_returns [of len 0] by auto
  with b show ?thesis by (simp add: m_print_aci_data_def)
qed

section \<open>Indices of the ring\<close>

lemma ring_mod: "x < 2 * N \<Longrightarrow> x mod N = (if x < N then x else x - (N::nat))"
  by (simp add: le_mod_geq)

lemma ring_distinct:
  assumes "h < N" "k < c" "c < (N::nat)"
  shows "(h + k) mod N \<noteq> (h + c) mod N"
  using assms by (auto simp: ring_mod split: if_splits)

lemma next_index_unat:
  assumes "0 < N" "N \<le> 256"
  shows "unat (next_index N i) = (unat i + 1) mod N"
proof -
  have "(unat i + 1) mod N < N" using assms(1) by simp
  then have "(unat i + 1) mod N < 256" using assms(2) by simp
  then show ?thesis unfolding next_index_def by (rule u8_of_nat)
qed

lemma is_empty_count:
  assumes "unat (head q) < N" "unat (tail q) < N"
  shows "m_aci_q_is_empty q \<longleftrightarrow> q_count N q = 0"
  using assms
  by (auto simp: m_aci_q_is_empty_def q_count_def word_unat_eq_iff ring_mod)

lemma is_full_count:
  assumes "0 < N" "N \<le> 256" "unat (head q) < N" "unat (tail q) < N"
  shows "m_aci_q_is_full N q \<longleftrightarrow> q_count N q = N - 1"
  using assms
  by (auto simp: m_aci_q_is_full_def q_count_def word_unat_eq_iff ring_mod next_index_unat)

lemma tail_index:
  assumes "unat (head q) < N" "unat (tail q) < N"
  shows "(unat (head q) + q_count N q) mod N = unat (tail q)"
  using assms by (auto simp: q_count_def ring_mod split: if_splits)

lemma pushed_count:
  assumes "0 < N" "N \<le> 256" "unat (head q) < N" "unat (tail q) < N" "\<not> m_aci_q_is_full N q"
  shows "q_count N (pushed N q p) = q_count N q + 1"
proof -
  have "q_count N q \<noteq> N - 1" using assms by (simp add: is_full_count)
  then show ?thesis
    using assms(1-4)
    by (auto simp: q_count_def pushed_def next_index_unat ring_mod split: if_splits)
qed

lemma popped_count:
  assumes "0 < N" "N \<le> 256" "unat (head q) < N" "unat (tail q) < N" "\<not> m_aci_q_is_empty q"
  shows "q_count N (popped N q) = q_count N q - 1"
proof -
  have "q_count N q \<noteq> 0" using assms by (simp add: is_empty_count)
  then show ?thesis
    using assms(1-4)
    by (auto simp: q_count_def popped_def next_index_unat ring_mod split: if_splits)
qed

section \<open>Enqueue and dequeue on the list of packets\<close>

lemma enqueue_cases:
  assumes "m_aci_q_enqueue N q p = Inr (ok, q')"
  shows "buffer p \<noteq> [] \<and>
         (if ok then \<not> m_aci_q_is_full N q \<and> q' = pushed N q p \<and>
                     unat (tail q) < length (aci_data q) \<and>
                     unat (buffer p ! 0) + 1 \<le> length (buffer p) \<and>
                     unat (buffer p ! 0) + 1 \<le> length (buffer (aci_data q ! unat (tail q)))
          else m_aci_q_is_full N q \<and> q' = q)"
  using assms
  by (auto simp: m_aci_q_enqueue_def m_aci_q_is_full_def Let_def pushed_def stored_def
           split: if_splits)

lemma enqueue_full:
  assumes "buffer p \<noteq> []" "m_aci_q_is_full N q"
  shows "m_aci_q_enqueue N q p = Inr (False, q)"
  using assms by (simp add: m_aci_q_enqueue_def m_aci_q_is_full_def Let_def split: if_splits)

lemma slot_ok:
  assumes "slots_ok N M q" "i < N"
  shows "data_ok M (aci_data q ! i)"
  using assms by (simp add: slots_ok_def list_all_length)

lemma enqueue_not_full:
  assumes "queue_ok N M q" "data_ok M p" "unat (buffer p ! 0) \<le> M" "\<not> m_aci_q_is_full N q"
  shows "m_aci_q_enqueue N q p = Inr (True, pushed N q p)"
proof -
  have ne: "buffer p \<noteq> []" using assms(2) by (auto simp: data_ok_def)
  have t: "unat (tail q) < length (aci_data q)"
    using assms(1) by (simp add: queue_ok_def slots_ok_def)
  have "data_ok M (aci_data q ! unat (tail q))"
    using assms(1) slot_ok [of N M q "unat (tail q)"] by (simp add: queue_ok_def)
  then have sl: "length (buffer (aci_data q ! unat (tail q))) = M + 1" by (simp add: data_ok_def)
  have pl: "length (buffer p) = M + 1" using assms(2) by (simp add: data_ok_def)
  have nf: "next_index N (tail q) \<noteq> head q"
    using assms(4) by (simp add: m_aci_q_is_full_def Let_def split: if_splits)
  show ?thesis
    using ne t sl pl nf assms(3)
    by (simp add: m_aci_q_enqueue_def Let_def pushed_def stored_def)
qed

lemma stored_ok:
  assumes "data_ok M slot" "unat (buffer p ! 0) + 1 \<le> length (buffer p)" "unat (buffer p ! 0) \<le> M"
  shows "data_ok M (stored slot p)"
  using assms by (simp add: data_ok_def stored_def memcpy_def)

lemma stored_same:
  assumes "unat (buffer p ! 0) + 1 \<le> length (buffer p)"
  shows "same_packet p (stored slot p)"
  using assms by (simp add: same_packet_def stored_def memcpy_def)

lemma pushed_ok:
  assumes "0 < N" "N \<le> 256" "queue_ok N M q"
    "unat (buffer p ! 0) + 1 \<le> length (buffer p)" "unat (buffer p ! 0) \<le> M"
  shows "queue_ok N M (pushed N q p)"
proof -
  have t: "unat (tail q) < N" using assms(3) by (simp add: queue_ok_def)
  have "data_ok M (aci_data q ! unat (tail q))"
    using assms(3) slot_ok [of N M q "unat (tail q)"] by (simp add: queue_ok_def)
  then have st: "data_ok M (stored (aci_data q ! unat (tail q)) p)"
    using assms(4,5) by (rule stored_ok)
  have "\<forall>x\<in>set ((aci_data q)[unat (tail q) := stored (aci_data q ! unat (tail q)) p]). data_ok M x"
  proof
    fix x assume "x \<in> set ((aci_data q)[unat (tail q) := stored (aci_data q ! unat (tail q)) p])"
    then have "x = stored (aci_data q ! unat (tail q)) p \<or> x \<in> set (aci_data q)"
      using set_update_subset_insert
        [of "aci_data q" "unat (tail q)" "stored (aci_data q ! unat (tail q)) p"] by auto
    then show "data_ok M x" using st assms(3) by (auto simp: queue_ok_def slots_ok_def list_all_iff)
  qed
  then show ?thesis
    using assms(1,2,3)
    by (simp add: queue_ok_def slots_ok_def pushed_def list_all_iff next_index_unat)
qed

lemma pushed_contents:
  assumes "0 < N" "N \<le> 256" "queue_ok N M q" "\<not> m_aci_q_is_full N q"
  shows "q_contents N (pushed N q p) = q_contents N q @ [stored (aci_data q ! unat (tail q)) p]"
proof -
  let ?c = "q_count N q"
  have h: "unat (head q) < N" and t: "unat (tail q) < N" and len: "length (aci_data q) = N"
    using assms(3) by (simp_all add: queue_ok_def slots_ok_def)
  have c: "q_count N (pushed N q p) = ?c + 1"
    using assms(1,2) h t assms(4) by (rule pushed_count)
  have clt: "?c < N" using assms(1) by (simp add: q_count_def)
  have last: "(unat (head q) + ?c) mod N = unat (tail q)" using h t by (rule tail_index)
  have old: "aci_data (pushed N q p) ! ((unat (head q) + k) mod N) =
             aci_data q ! ((unat (head q) + k) mod N)" if "k < ?c" for k
  proof -
    have "(unat (head q) + k) mod N \<noteq> unat (tail q)"
      using ring_distinct [OF h that clt] last by simp
    then show ?thesis by (simp add: pushed_def)
  qed
  have new: "aci_data (pushed N q p) ! ((unat (head q) + ?c) mod N) =
             stored (aci_data q ! unat (tail q)) p"
    using last t len by (simp add: pushed_def)
  have hd_same: "head (pushed N q p) = head q" by (simp add: pushed_def)
  show ?thesis
    unfolding q_contents_def c hd_same
    using old new by simp
qed

lemma dequeue_cases:
  assumes "m_aci_q_dequeue N q dst = Inr (ok, q', c)"
  shows "if ok then \<not> m_aci_q_is_empty q \<and> q' = popped N q \<and>
                    c = (if dst then Some (aci_data q ! unat (head q)) else None)
         else m_aci_q_is_empty q \<and> q' = q \<and> c = None"
  using assms
  by (auto simp: m_aci_q_dequeue_def m_aci_q_is_empty_def popped_def split: if_splits)

lemma dequeue_result:
  assumes "queue_ok N M q"
  shows "m_aci_q_dequeue N q dst =
           (if m_aci_q_is_empty q then Inr (False, q, None)
            else Inr (True, popped N q,
                      if dst then Some (aci_data q ! unat (head q)) else None))"
  using assms
  by (simp add: m_aci_q_dequeue_def m_aci_q_is_empty_def popped_def queue_ok_def slots_ok_def)

lemma popped_ok:
  assumes "0 < N" "N \<le> 256" "queue_ok N M q"
  shows "queue_ok N M (popped N q)"
  using assms by (simp add: queue_ok_def slots_ok_def popped_def next_index_unat)

lemma popped_contents:
  assumes "0 < N" "N \<le> 256" "unat (head q) < N" "unat (tail q) < N" "\<not> m_aci_q_is_empty q"
  shows "q_contents N q = aci_data q ! unat (head q) # q_contents N (popped N q)"
proof -
  let ?c = "q_count N q"
  have c0: "?c \<noteq> 0" using assms by (simp add: is_empty_count)
  have c': "q_count N (popped N q) = ?c - 1"
    using assms by (rule popped_count)
  have hd': "unat (head (popped N q)) = (unat (head q) + 1) mod N"
    using assms(1,2) by (simp add: popped_def next_index_unat)
  have shift: "((unat (head q) + 1) mod N + k) mod N = (unat (head q) + Suc k) mod N" for k
    by (simp add: mod_add_left_eq)
  have "[0..<?c] = 0 # map Suc [0..<?c - 1]"
    using c0 by (metis One_nat_def Suc_pred map_Suc_upt neq0_conv upt_conv_Cons)
  then have "q_contents N q =
      aci_data q ! (unat (head q) mod N) #
      map (\<lambda>k. aci_data q ! ((unat (head q) + Suc k) mod N)) [0..<?c - 1]"
    by (simp add: q_contents_def comp_def)
  moreover have "q_contents N (popped N q) =
      map (\<lambda>k. aci_data q ! ((unat (head q) + Suc k) mod N)) [0..<?c - 1]"
    unfolding q_contents_def c' hd' shift by (simp add: popped_def)
  ultimately show ?thesis using assms(3) by simp
qed

section \<open>Sequences of queue operations\<close>

lemma q_run_invariant:
  assumes "0 < N" "N \<le> 256" "list_all (op_ok M) ops"
    "queue_ok N M q" "d \<le> e" "e - d = q_count N q"
  shows "\<exists>q' e' d'. q_run N ops (q, e, d) = Inr (q', e', d') \<and>
           queue_ok N M q' \<and> d' \<le> e' \<and> e' - d' = q_count N q'"
  using assms(3-)
proof (induction ops arbitrary: q e d)
  case Nil
  then show ?case by simp
next
  case (Cons a ops)
  have h: "unat (head q) < N" and t: "unat (tail q) < N"
    using Cons.prems(2) by (simp_all add: queue_ok_def)
  show ?case
  proof (cases a)
    case (Enqueue p)
    with Cons.prems(1) have pk: "data_ok M p" "unat (buffer p ! 0) \<le> M"
      by (simp_all add: packet_ok_def)
    then have ne: "buffer p \<noteq> []" and pl: "unat (buffer p ! 0) + 1 \<le> length (buffer p)"
      by (auto simp: data_ok_def)
    show ?thesis
    proof (cases "m_aci_q_is_full N q")
      case True
      then have r: "m_aci_q_enqueue N q p = Inr (False, q)" using ne by (simp add: enqueue_full)
      have "\<exists>q' e' d'. q_run N ops (q, e, d) = Inr (q', e', d') \<and>
           queue_ok N M q' \<and> d' \<le> e' \<and> e' - d' = q_count N q'"
        by (rule Cons.IH) (use Cons.prems in simp_all)
      then show ?thesis using Enqueue r by simp
    next
      case False
      then have r: "m_aci_q_enqueue N q p = Inr (True, pushed N q p)"
        using Cons.prems(2) pk by (simp add: enqueue_not_full)
      have ok': "queue_ok N M (pushed N q p)"
        using assms(1,2) Cons.prems(2) pl pk(2) by (rule pushed_ok)
      have cnt: "q_count N (pushed N q p) = q_count N q + 1"
        using assms(1,2) h t False by (rule pushed_count)
      have "\<exists>q' e' d'. q_run N ops (pushed N q p, e + 1, d) = Inr (q', e', d') \<and>
           queue_ok N M q' \<and> d' \<le> e' \<and> e' - d' = q_count N q'"
        by (rule Cons.IH) (use Cons.prems ok' cnt in simp_all)
      then show ?thesis using Enqueue r by simp
    qed
  next
    case (Dequeue dst)
    show ?thesis
    proof (cases "m_aci_q_is_empty q")
      case True
      then have r: "m_aci_q_dequeue N q dst = Inr (False, q, None)"
        using Cons.prems(2) by (simp add: dequeue_result)
      have "\<exists>q' e' d'. q_run N ops (q, e, d) = Inr (q', e', d') \<and>
           queue_ok N M q' \<and> d' \<le> e' \<and> e' - d' = q_count N q'"
        by (rule Cons.IH) (use Cons.prems in simp_all)
      then show ?thesis using Dequeue r by simp
    next
      case False
      then have r: "m_aci_q_dequeue N q dst =
          Inr (True, popped N q, if dst then Some (aci_data q ! unat (head q)) else None)"
        using Cons.prems(2) by (simp add: dequeue_result)
      have ok': "queue_ok N M (popped N q)"
        using assms(1,2) Cons.prems(2) by (rule popped_ok)
      have cnt: "q_count N (popped N q) = q_count N q - 1"
        using assms(1,2) h t False by (rule popped_count)
      have pos: "q_count N q \<noteq> 0" using False h t by (simp add: is_empty_count)
      have "\<exists>q' e' d'. q_run N ops (popped N q, e, d + 1) = Inr (q', e', d') \<and>
           queue_ok N M q' \<and> d' \<le> e' \<and> e' - d' = q_count N q'"
        by (rule Cons.IH) (use Cons.prems ok' cnt pos in simp_all)
      then show ?thesis using Dequeue r by simp
    qed
  qed
qed

lemma q_run_init:
  assumes "0 < N" "N \<le> 255" "0 < M" "slots_ok N M q0"
  shows "\<exists>q1. m_aci_q_init N q0 = Inr q1 \<and> queue_ok N M q1 \<and> q_count N q1 = 0 \<and>
           head q1 = 0 \<and> tail q1 = 0"
proof -
  let ?q1 = "q0\<lparr>aci_data := map zero2 (aci_data q0), head := 0, tail := 0\<rparr>"
  have "m_aci_q_init N q0 = Inr ?q1"
    using assms(2,3,4) by (rule m_aci_q_init_result)
  moreover have "queue_ok N M ?q1"
    using assms(1,4) by (simp add: queue_ok_def slots_ok_def list_all_iff zero2_ok)
  moreover have "q_count N ?q1 = 0" by (simp add: q_count_def)
  ultimately show ?thesis by simp
qed

text \<open>
  Claim C2. Take a queue of \<open>N\<close> slots (\<open>1 \<le> N \<le> 255\<close>, the bound under which the byte
  counter of \<open>m_aci_q_init\<close> reaches \<open>N\<close>), initialise it with \<open>m_aci_q_init\<close> and apply
  any sequence of enqueues of well-formed packets and of dequeues. Then both calls
  return, and in the state reached: the successful enqueues \<open>e\<close> exceed the successful
  dequeues \<open>d\<close> by at most \<open>N - 1\<close>; \<open>m_aci_q_is_empty\<close> holds iff \<open>e - d = 0\<close> and
  \<open>m_aci_q_is_full\<close> iff \<open>e - d = N - 1\<close>; an enqueue returns false exactly when the queue
  is full, a dequeue and a peek exactly when it is empty, and a call that returns false
  leaves the queue (so its head and tail) as it was.
\<close>

theorem queue_occupancy:
  assumes "0 < N" "N \<le> 255" "0 < M" "slots_ok N M q0" "list_all (op_ok M) ops"
  shows "\<exists>q1 q e d.
           m_aci_q_init N q0 = Inr q1 \<and> q_run N ops (q1, 0, 0) = Inr (q, e, d) \<and>
           d \<le> e \<and> e - d \<le> N - 1 \<and>
           (m_aci_q_is_empty q \<longleftrightarrow> e - d = 0) \<and>
           (m_aci_q_is_full N q \<longleftrightarrow> e - d = N - 1) \<and>
           (\<forall>p. packet_ok M p \<longrightarrow>
              m_aci_q_enqueue N q p =
                (if m_aci_q_is_full N q then Inr (False, q) else Inr (True, pushed N q p))) \<and>
           (\<forall>p ok q'. m_aci_q_enqueue N q p = Inr (ok, q') \<longrightarrow>
              (\<not> ok \<longleftrightarrow> m_aci_q_is_full N q) \<and>
              (\<not> ok \<longrightarrow> head q' = head q \<and> tail q' = tail q)) \<and>
           (\<forall>dst. m_aci_q_dequeue N q dst =
              (if m_aci_q_is_empty q then Inr (False, q, None)
               else Inr (True, popped N q,
                         if dst then Some (aci_data q ! unat (head q)) else None))) \<and>
           m_aci_q_peek q True =
              (if m_aci_q_is_empty q then Inr (False, None)
               else Inr (True, Some (aci_data q ! unat (head q))))"
proof -
  have N256: "N \<le> 256" using assms(2) by simp
  obtain q1 where q1: "m_aci_q_init N q0 = Inr q1" "queue_ok N M q1" "q_count N q1 = 0"
    using q_run_init [OF assms(1-4)] by blast
  obtain q e d where run: "q_run N ops (q1, 0, 0) = Inr (q, e, d)"
    and ok: "queue_ok N M q" and de: "d \<le> e" and cnt: "e - d = q_count N q"
    using q_run_invariant [OF assms(1) N256 assms(5) q1(2), of 0 0] q1(3) by auto
  have h: "unat (head q) < N" and t: "unat (tail q) < N"
    using ok by (simp_all add: queue_ok_def)
  have "q_count N q < N" using assms(1) by (simp add: q_count_def)
  then have bound: "e - d \<le> N - 1" using cnt by simp
  have emp: "m_aci_q_is_empty q \<longleftrightarrow> e - d = 0"
    using h t cnt by (simp add: is_empty_count)
  have full: "m_aci_q_is_full N q \<longleftrightarrow> e - d = N - 1"
    using assms(1) N256 h t cnt by (simp add: is_full_count)
  have enq: "\<forall>p. packet_ok M p \<longrightarrow>
              m_aci_q_enqueue N q p =
                (if m_aci_q_is_full N q then Inr (False, q) else Inr (True, pushed N q p))"
  proof (intro allI impI)
    fix p assume p: "packet_ok M p"
    then have "buffer p \<noteq> []" by (auto simp: packet_ok_def data_ok_def)
    then show "m_aci_q_enqueue N q p =
                (if m_aci_q_is_full N q then Inr (False, q) else Inr (True, pushed N q p))"
      using ok p by (simp add: packet_ok_def enqueue_not_full enqueue_full)
  qed
  have enq2: "\<forall>p ok q'. m_aci_q_enqueue N q p = Inr (ok, q') \<longrightarrow>
              (\<not> ok \<longleftrightarrow> m_aci_q_is_full N q) \<and>
              (\<not> ok \<longrightarrow> head q' = head q \<and> tail q' = tail q)"
  proof (intro allI impI)
    fix p ok' q'
    assume "m_aci_q_enqueue N q p = Inr (ok', q')"
    from enqueue_cases [OF this]
    show "(\<not> ok' \<longleftrightarrow> m_aci_q_is_full N q) \<and> (\<not> ok' \<longrightarrow> head q' = head q \<and> tail q' = tail q)"
      by (cases ok') simp_all
  qed
  have deq: "\<forall>dst. m_aci_q_dequeue N q dst =
              (if m_aci_q_is_empty q then Inr (False, q, None)
               else Inr (True, popped N q,
                         if dst then Some (aci_data q ! unat (head q)) else None))"
    using ok by (simp add: dequeue_result)
  have peek: "m_aci_q_peek q True =
              (if m_aci_q_is_empty q then Inr (False, None)
               else Inr (True, Some (aci_data q ! unat (head q))))"
    using ok by (simp add: m_aci_q_peek_def m_aci_q_is_empty_def queue_ok_def slots_ok_def)
  show ?thesis
    by (rule exI [of _ q1], rule exI [of _ q], rule exI [of _ e], rule exI [of _ d])
       (intro conjI q1(1) run de bound emp full enq enq2 deq peek)
qed

theorem queue_occupancy_witness:
  "slots_ok 4 3 (mk_queue [[9,9,9,9],[9,9,9,9],[9,9,9,9],[9,9,9,9]] 2 1) \<and>
   list_all (op_ok 3) [Enqueue (mk_data [2,5,6,7]), Dequeue True, Enqueue (mk_data [1,8,0,0])] \<and>
   (\<exists>q1 q e d.
      m_aci_q_init 4 (mk_queue [[9,9,9,9],[9,9,9,9],[9,9,9,9],[9,9,9,9]] 2 1) = Inr q1 \<and>
      q_run 4 [Enqueue (mk_data [2,5,6,7]), Dequeue True, Enqueue (mk_data [1,8,0,0])] (q1, 0, 0)
        = Inr (q, e, d) \<and>
      d \<le> e \<and> e - d \<le> 4 - 1 \<and>
      (m_aci_q_is_empty q \<longleftrightarrow> e - d = 0) \<and> (m_aci_q_is_full 4 q \<longleftrightarrow> e - d = 4 - 1))"
proof -
  have a: "slots_ok 4 3 (mk_queue [[9,9,9,9],[9,9,9,9],[9,9,9,9],[9,9,9,9]] 2 1)"
    by (simp add: slots_ok_def mk_queue_def mk_data_def data_ok_def)
  have b: "list_all (op_ok 3) [Enqueue (mk_data [2,5,6,7]), Dequeue True, Enqueue (mk_data [1,8,0,0])]"
    by (simp add: packet_ok_def mk_data_def data_ok_def)
  have c: "(0::nat) < 4" "(4::nat) \<le> 255" "(0::nat) < 3" by simp_all
  from queue_occupancy [OF c a b] obtain q1 q e d where
    "m_aci_q_init 4 (mk_queue [[9,9,9,9],[9,9,9,9],[9,9,9,9],[9,9,9,9]] 2 1) = Inr q1"
    "q_run 4 [Enqueue (mk_data [2,5,6,7]), Dequeue True, Enqueue (mk_data [1,8,0,0])] (q1, 0, 0)
        = Inr (q, e, d)"
    "d \<le> e" "e - d \<le> 4 - 1"
    "m_aci_q_is_empty q \<longleftrightarrow> e - d = 0" "m_aci_q_is_full 4 q \<longleftrightarrow> e - d = 4 - 1"
    by (elim exE conjE)
  with a b show ?thesis by (intro conjI exI)
qed

section \<open>Round trip and order\<close>

lemma same_packet_bytes:
  assumes "same_packet p d" "i \<le> unat (buffer p ! 0)"
    "unat (buffer p ! 0) + 1 \<le> length (buffer p)" "unat (buffer p ! 0) + 1 \<le> length (buffer d)"
  shows "buffer d ! i = buffer p ! i"
proof -
  have "take (unat (buffer p ! 0) + 1) (buffer d) ! i = take (unat (buffer p ! 0) + 1) (buffer p) ! i"
    using assms(1) by (simp add: same_packet_def)
  then show ?thesis using assms(2) by simp
qed

text \<open>
  Claim C4, as amended. The claim takes any queue that is not full; the packet that
  \<open>m_aci_q_dequeue\<close> returns after \<open>m_aci_q_enqueue p\<close> is then the oldest one of the
  queue, which is \<open>p\<close> only when the queue was empty. For a packet \<open>p\<close> whose length byte
  is at most \<open>M\<close> and a queue that is empty (and not full, which an empty queue is
  unless \<open>N = 1\<close>): the enqueue and the dequeue after it return true and the packet
  dequeued has the length byte of \<open>p\<close>, the payload bytes of \<open>p\<close> at the indices below
  the length, and status byte 0.
\<close>

theorem enqueue_dequeue_round_trip:
  assumes "0 < N" "N \<le> 256" "queue_ok N M q" "packet_ok M p"
    "m_aci_q_is_empty q" "\<not> m_aci_q_is_full N q"
  shows "\<exists>q1 q2 d.
           m_aci_q_enqueue N q p = Inr (True, q1) \<and>
           m_aci_q_dequeue N q1 True = Inr (True, q2, Some d) \<and>
           buffer d ! 0 = buffer p ! 0 \<and>
           (\<forall>i < unat (buffer p ! 0). buffer d ! (i + 1) = buffer p ! (i + 1)) \<and>
           status_byte d = 0"
proof -
  let ?slot = "aci_data q ! unat (tail q)"
  let ?d = "stored ?slot p"
  have pk: "data_ok M p" "unat (buffer p ! 0) \<le> M"
    using assms(4) by (simp_all add: packet_ok_def)
  then have pl: "unat (buffer p ! 0) + 1 \<le> length (buffer p)" by (simp add: data_ok_def)
  have h: "unat (head q) < N" and t: "unat (tail q) < N"
    using assms(3) by (simp_all add: queue_ok_def)
  have enq: "m_aci_q_enqueue N q p = Inr (True, pushed N q p)"
    using assms(3) pk assms(6) by (rule enqueue_not_full)
  have ok1: "queue_ok N M (pushed N q p)"
    using assms(1,2,3) pl pk(2) by (rule pushed_ok)
  have "q_contents N q = []"
    using assms(5) h t by (simp add: q_contents_def is_empty_count)
  then have c1: "q_contents N (pushed N q p) = [?d]"
    using pushed_contents [OF assms(1,2,3,6), of p] by simp
  have cnt1: "q_count N (pushed N q p) = 1"
    using pushed_count [OF assms(1,2) h t assms(6), of p] assms(5) h t
    by (simp add: is_empty_count)
  have h1: "unat (head (pushed N q p)) < N" and t1: "unat (tail (pushed N q p)) < N"
    using ok1 by (simp_all add: queue_ok_def)
  have ne1: "\<not> m_aci_q_is_empty (pushed N q p)"
    using cnt1 h1 t1 by (simp add: is_empty_count)
  have "q_contents N (pushed N q p) =
          aci_data (pushed N q p) ! unat (head (pushed N q p)) # q_contents N (popped N (pushed N q p))"
    using assms(1,2) h1 t1 ne1 by (rule popped_contents)
  with c1 have front: "aci_data (pushed N q p) ! unat (head (pushed N q p)) = ?d" by simp
  have deq: "m_aci_q_dequeue N (pushed N q p) True =
               Inr (True, popped N (pushed N q p), Some ?d)"
    using dequeue_result [OF ok1, of True] ne1 front by simp
  have same: "same_packet p ?d" using pl by (rule stored_same)
  have "data_ok M ?slot"
    using assms(3) t slot_ok [of N M q "unat (tail q)"] by (simp add: queue_ok_def)
  then have "data_ok M ?d" using pl pk(2) by (rule stored_ok)
  then have dl: "unat (buffer p ! 0) + 1 \<le> length (buffer ?d)"
    using pk(2) by (simp add: data_ok_def)
  have b0: "buffer ?d ! 0 = buffer p ! 0"
    using same_packet_bytes [OF same _ pl dl, of 0] by simp
  have bi: "\<forall>i < unat (buffer p ! 0). buffer ?d ! (i + 1) = buffer p ! (i + 1)"
    using same_packet_bytes [OF same _ pl dl] by simp
  have st: "status_byte ?d = 0" by (simp add: stored_def)
  show ?thesis
    by (rule exI [of _ "pushed N q p"], rule exI [of _ "popped N (pushed N q p)"],
        rule exI [of _ ?d]) (intro conjI enq deq b0 bi st)
qed

theorem enqueue_dequeue_round_trip_witness:
  "queue_ok 4 3 (mk_queue [[9,9,9,9],[9,9,9,9],[9,9,9,9],[9,9,9,9]] 1 1) \<and>
   packet_ok 3 (mk_data [2,5,6,7]) \<and>
   m_aci_q_is_empty (mk_queue [[9,9,9,9],[9,9,9,9],[9,9,9,9],[9,9,9,9]] 1 1) \<and>
   \<not> m_aci_q_is_full 4 (mk_queue [[9,9,9,9],[9,9,9,9],[9,9,9,9],[9,9,9,9]] 1 1) \<and>
   (\<exists>q1 q2 d.
      m_aci_q_enqueue 4 (mk_queue [[9,9,9,9],[9,9,9,9],[9,9,9,9],[9,9,9,9]] 1 1) (mk_data [2,5,6,7])
        = Inr (True, q1) \<and>
      m_aci_q_dequeue 4 q1 True = Inr (True, q2, Some d) \<and>
      buffer d ! 0 = 2 \<and> buffer d ! 1 = 5 \<and> buffer d ! 2 = 6 \<and> status_byte d = 0)"
proof -
  let ?q = "mk_queue [[9,9,9,9],[9,9,9,9],[9,9,9,9],[9,9,9,9]] 1 1"
  let ?p = "mk_data [2,5,6,7]"
  have a: "queue_ok 4 3 ?q"
    by (simp add: queue_ok_def slots_ok_def mk_queue_def mk_data_def data_ok_def)
  have b: "packet_ok 3 ?p" by (simp add: packet_ok_def mk_data_def data_ok_def)
  have c: "m_aci_q_is_empty ?q" by (simp add: m_aci_q_is_empty_def mk_queue_def)
  have d: "\<not> m_aci_q_is_full 4 ?q"
    by (simp add: m_aci_q_is_full_def mk_queue_def next_index_def)
  have n: "(0::nat) < 4" "(4::nat) \<le> 256" by simp_all
  from enqueue_dequeue_round_trip [OF n a b c d] obtain q1 q2 x where
    r: "m_aci_q_enqueue 4 ?q ?p = Inr (True, q1)" "m_aci_q_dequeue 4 q1 True = Inr (True, q2, Some x)"
       "buffer x ! 0 = buffer ?p ! 0"
       "\<forall>i < unat (buffer ?p ! 0). buffer x ! (i + 1) = buffer ?p ! (i + 1)" "status_byte x = 0"
    by (elim exE conjE)
  have b0: "buffer x ! 0 = 2" using r(3) by (simp add: mk_data_def)
  have "buffer x ! (0 + 1) = buffer ?p ! (0 + 1)" "buffer x ! (1 + 1) = buffer ?p ! (1 + 1)"
    using r(4) by (simp_all add: mk_data_def)
  then have b12: "buffer x ! 1 = 5" "buffer x ! 2 = 6"
    by (simp_all add: mk_data_def numeral_2_eq_2)
  from a b c d r(1,2) b0 b12 r(5) show ?thesis by (intro conjI exI)
qed

text \<open>
  Claim C4 as stated fails on a queue that holds a packet: with \<open>[1, 7]\<close> in slot 0 of a
  queue of four slots, which is not full, the enqueue of \<open>[2, 5, 6]\<close> succeeds and the
  dequeue after it returns the packet \<open>[1, 7]\<close>, whose length byte is 1 and not 2.
\<close>

theorem round_trip_counterexample:
  "\<not> m_aci_q_is_full 4 (mk_queue [[1,7,0,0],[0,0,0,0],[0,0,0,0],[0,0,0,0]] 0 1) \<and>
   unat (buffer (mk_data [2,5,6,0]) ! 0) \<le> 3 \<and>
   m_aci_q_enqueue 4 (mk_queue [[1,7,0,0],[0,0,0,0],[0,0,0,0],[0,0,0,0]] 0 1) (mk_data [2,5,6,0])
     = Inr (True, mk_queue [[1,7,0,0],[2,5,6,0],[0,0,0,0],[0,0,0,0]] 0 2) \<and>
   m_aci_q_dequeue 4 (mk_queue [[1,7,0,0],[2,5,6,0],[0,0,0,0],[0,0,0,0]] 0 2) True
     = Inr (True, mk_queue [[1,7,0,0],[2,5,6,0],[0,0,0,0],[0,0,0,0]] 1 2, Some (mk_data [1,7,0,0])) \<and>
   buffer (mk_data [1,7,0,0]) ! 0 \<noteq> buffer (mk_data [2,5,6,0]) ! 0"
  by (simp add: m_aci_q_is_full_def m_aci_q_enqueue_def m_aci_q_dequeue_def mk_queue_def
        mk_data_def next_index_def memcpy_def Let_def)

lemma enqueue_all_contents:
  assumes "0 < N" "N \<le> 256" "queue_ok N M q"
    "enqueue_all N q ps = Inr (oks, q1)" "list_all (\<lambda>b. b) oks"
  shows "queue_ok N M q1 \<and>
         (\<exists>ds. q_contents N q1 = q_contents N q @ ds \<and> list_all2 same_packet ps ds)"
  using assms(3-)
proof (induction ps arbitrary: q oks)
  case Nil
  then show ?case by simp
next
  case (Cons p ps)
  from Cons.prems(2) obtain ok q' oks' where
    e: "m_aci_q_enqueue N q p = Inr (ok, q')" and
    r: "enqueue_all N q' ps = Inr (oks', q1)" and o: "oks = ok # oks'"
    by (auto split: sum.splits prod.splits)
  from o Cons.prems(3) have ok: ok and oks': "list_all (\<lambda>b. b) oks'" by simp_all
  from enqueue_cases [OF e] ok have
    nf: "\<not> m_aci_q_is_full N q" and q': "q' = pushed N q p" and
    pl: "unat (buffer p ! 0) + 1 \<le> length (buffer p)" and
    sl: "unat (buffer p ! 0) + 1 \<le> length (buffer (aci_data q ! unat (tail q)))"
    by simp_all
  have t: "unat (tail q) < N" using Cons.prems(1) by (simp add: queue_ok_def)
  have "data_ok M (aci_data q ! unat (tail q))"
    using Cons.prems(1) t slot_ok [of N M q "unat (tail q)"] by (simp add: queue_ok_def)
  with sl have lm: "unat (buffer p ! 0) \<le> M" by (simp add: data_ok_def)
  have ok': "queue_ok N M q'"
    unfolding q' using assms(1,2) Cons.prems(1) pl lm by (rule pushed_ok)
  have c': "q_contents N q' = q_contents N q @ [stored (aci_data q ! unat (tail q)) p]"
    unfolding q' using assms(1,2) Cons.prems(1) nf by (rule pushed_contents)
  from Cons.IH [OF ok' r oks'] obtain ds where
    ok1: "queue_ok N M q1" and
    ds: "q_contents N q1 = q_contents N q' @ ds" "list_all2 same_packet ps ds"
    by blast
  have "q_contents N q1 = q_contents N q @ (stored (aci_data q ! unat (tail q)) p # ds)"
    using ds(1) c' by simp
  moreover have "list_all2 same_packet (p # ps) (stored (aci_data q ! unat (tail q)) p # ds)"
    using ds(2) stored_same [OF pl] by simp
  ultimately show ?case using ok1 by blast
qed

lemma dequeue_n_contents:
  assumes "0 < N" "N \<le> 256" "queue_ok N M q" "n \<le> q_count N q"
  shows "\<exists>q'. dequeue_n N q n = Inr (map (\<lambda>d. (True, Some d)) (take n (q_contents N q)), q') \<and>
              queue_ok N M q' \<and> q_contents N q' = drop n (q_contents N q) \<and>
              q_count N q' = q_count N q - n"
  using assms(3-)
proof (induction n arbitrary: q)
  case 0
  then show ?case by simp
next
  case (Suc n)
  have h: "unat (head q) < N" and t: "unat (tail q) < N"
    using Suc.prems(1) by (simp_all add: queue_ok_def)
  have ne: "\<not> m_aci_q_is_empty q"
    using Suc.prems(2) h t by (simp add: is_empty_count)
  have d: "m_aci_q_dequeue N q True = Inr (True, popped N q, Some (aci_data q ! unat (head q)))"
    using dequeue_result [OF Suc.prems(1), of True] ne by simp
  have ok': "queue_ok N M (popped N q)"
    using assms(1,2) Suc.prems(1) by (rule popped_ok)
  have cnt: "q_count N (popped N q) = q_count N q - 1"
    using assms(1,2) h t ne by (rule popped_count)
  have con: "q_contents N q = aci_data q ! unat (head q) # q_contents N (popped N q)"
    using assms(1,2) h t ne by (rule popped_contents)
  have "n \<le> q_count N (popped N q)" using cnt Suc.prems(2) by simp
  from Suc.IH [OF ok' this] obtain q' where
    r: "dequeue_n N (popped N q) n =
          Inr (map (\<lambda>d. (True, Some d)) (take n (q_contents N (popped N q))), q')"
       "queue_ok N M q'" "q_contents N q' = drop n (q_contents N (popped N q))"
       "q_count N q' = q_count N (popped N q) - n"
    by blast
  have "dequeue_n N q (Suc n) =
          Inr (map (\<lambda>d. (True, Some d)) (take (Suc n) (q_contents N q)), q')"
    using d r(1) by (subst con) simp
  moreover have "q_contents N q' = drop (Suc n) (q_contents N q)"
    using r(3) by (subst con) simp
  moreover have "q_count N q' = q_count N q - Suc n" using r(4) cnt by simp
  ultimately show ?case using r(2) by blast
qed

lemma q_contents_length: "length (q_contents N q) = q_count N q"
  by (simp add: q_contents_def)

text \<open>
  Claim C5. On a queue that holds nothing, after \<open>k\<close> enqueues of \<open>p1 .. pk\<close> that all
  returned true (and no dequeue between them), \<open>k\<close> dequeues all return true and copy
  out \<open>k\<close> packets that are, in this order, \<open>p1 .. pk\<close> as far as a queue keeps a
  packet (\<open>same_packet\<close>: the length byte and the payload it counts, status byte 0).
  The queue is empty again after them.
\<close>

theorem queue_fifo:
  assumes "0 < N" "N \<le> 256" "queue_ok N M q" "m_aci_q_is_empty q"
    "enqueue_all N q ps = Inr (oks, q1)" "list_all (\<lambda>b. b) oks"
  shows "\<exists>ds q2. dequeue_n N q1 (length ps) = Inr (map (\<lambda>d. (True, Some d)) ds, q2) \<and>
                 list_all2 same_packet ps ds \<and> m_aci_q_is_empty q2"
proof -
  have h: "unat (head q) < N" and t: "unat (tail q) < N"
    using assms(3) by (simp_all add: queue_ok_def)
  have "q_contents N q = []"
    using assms(4) h t by (simp add: q_contents_def is_empty_count)
  with enqueue_all_contents [OF assms(1,2,3,5,6)] obtain ds where
    ok1: "queue_ok N M q1" and ds: "q_contents N q1 = ds" "list_all2 same_packet ps ds"
    by auto
  have len: "length ps = q_count N q1"
    using ds q_contents_length [of N q1] by (simp add: list_all2_lengthD)
  then have "length ps \<le> q_count N q1" by simp
  from dequeue_n_contents [OF assms(1,2) ok1 this] obtain q2 where
    r: "dequeue_n N q1 (length ps) =
          Inr (map (\<lambda>d. (True, Some d)) (take (length ps) (q_contents N q1)), q2)"
       "queue_ok N M q2" "q_count N q2 = q_count N q1 - length ps"
    by blast
  have "take (length ps) (q_contents N q1) = ds"
    using ds len q_contents_length [of N q1] by simp
  with r(1) have d: "dequeue_n N q1 (length ps) = Inr (map (\<lambda>d. (True, Some d)) ds, q2)"
    by simp
  have "m_aci_q_is_empty q2"
    using r(2,3) len is_empty_count [of q2 N] by (simp add: queue_ok_def)
  with d ds(2) show ?thesis by blast
qed

theorem queue_fifo_witness:
  "queue_ok 4 3 (mk_queue [[9,9,9,9],[9,9,9,9],[9,9,9,9],[9,9,9,9]] 3 3) \<and>
   m_aci_q_is_empty (mk_queue [[9,9,9,9],[9,9,9,9],[9,9,9,9],[9,9,9,9]] 3 3) \<and>
   enqueue_all 4 (mk_queue [[9,9,9,9],[9,9,9,9],[9,9,9,9],[9,9,9,9]] 3 3)
       [mk_data [1,5,0,0], mk_data [2,6,7,0]]
     = Inr ([True, True], mk_queue [[2,6,7,9],[9,9,9,9],[9,9,9,9],[1,5,9,9]] 3 1) \<and>
   (\<exists>ds q2. dequeue_n 4 (mk_queue [[2,6,7,9],[9,9,9,9],[9,9,9,9],[1,5,9,9]] 3 1)
                 (length [mk_data [1,5,0,0], mk_data [2,6,7,0]])
               = Inr (map (\<lambda>d. (True, Some d)) ds, q2) \<and>
            list_all2 same_packet [mk_data [1,5,0,0], mk_data [2,6,7,0]] ds \<and>
            m_aci_q_is_empty q2)"
proof -
  let ?q = "mk_queue [[9,9,9,9],[9,9,9,9],[9,9,9,9],[9,9,9,9]] 3 3"
  have a: "queue_ok 4 3 ?q"
    by (simp add: queue_ok_def slots_ok_def mk_queue_def mk_data_def data_ok_def)
  have b: "m_aci_q_is_empty ?q" by (simp add: m_aci_q_is_empty_def mk_queue_def)
  have c: "enqueue_all 4 ?q [mk_data [1,5,0,0], mk_data [2,6,7,0]]
     = Inr ([True, True], mk_queue [[2,6,7,9],[9,9,9,9],[9,9,9,9],[1,5,9,9]] 3 1)"
    by (simp add: m_aci_q_enqueue_def mk_queue_def mk_data_def next_index_def memcpy_def Let_def)
  have d: "list_all (\<lambda>b. b) [True, True]" by simp
  have n: "(0::nat) < 4" "(4::nat) \<le> 256" by simp_all
  from a b c queue_fifo [OF n a b c d] show ?thesis by (intro conjI)
qed

section \<open>Flush\<close>

text \<open>
  Claim C9. With queues of \<open>N \<le> 255\<close> slots and buffers of at least two bytes
  (\<open>M \<ge> 1\<close>), \<open>m_aci_q_flush\<close> returns, head and tail of both queues are 0 and both
  queues are empty in the state it returns, and a second \<open>m_aci_q_flush\<close> returns that
  same state.
\<close>

theorem m_aci_q_flush_idempotent:
  assumes "N \<le> 255" "0 < M" "slots_ok N M (aci_tx_q s)" "slots_ok N M (aci_rx_q s)"
  shows "\<exists>s'. m_aci_q_flush N s = Inr s' \<and>
           head (aci_tx_q s') = 0 \<and> tail (aci_tx_q s') = 0 \<and>
           head (aci_rx_q s') = 0 \<and> tail (aci_rx_q s') = 0 \<and>
           m_aci_q_is_empty (aci_tx_q s') \<and> m_aci_q_is_empty (aci_rx_q s') \<and>
           m_aci_q_flush N s' = Inr s'"
proof -
  let ?z = "\<lambda>q. q\<lparr>aci_data := map zero2 (aci_data q), head := 0, tail := 0\<rparr>"
  let ?s' = "s\<lparr>aci_tx_q := ?z (aci_tx_q s), aci_rx_q := ?z (aci_rx_q s)\<rparr>"
  have tx: "m_aci_q_init N (aci_tx_q s) = Inr (?z (aci_tx_q s))"
    using assms(1,2,3) by (rule m_aci_q_init_result)
  have rx: "m_aci_q_init N (aci_rx_q s) = Inr (?z (aci_rx_q s))"
    using assms(1,2,4) by (rule m_aci_q_init_result)
  have f1: "m_aci_q_flush N s = Inr ?s'"
    using tx rx by (simp add: m_aci_q_flush_def)
  have z_ok: "slots_ok N M (?z q)" if "slots_ok N M q" for q
    using that by (simp add: slots_ok_def list_all_iff zero2_ok)
  have zz: "zero2 \<circ> zero2 = zero2" by (rule ext) (simp add: zero2_idem)
  then have z_idem: "?z (?z q) = ?z q" for q :: aci_queue_t
    by simp
  have tx': "m_aci_q_init N (?z (aci_tx_q s)) = Inr (?z (?z (aci_tx_q s)))"
    using assms(1,2) z_ok [OF assms(3)] by (rule m_aci_q_init_result)
  have rx': "m_aci_q_init N (?z (aci_rx_q s)) = Inr (?z (?z (aci_rx_q s)))"
    using assms(1,2) z_ok [OF assms(4)] by (rule m_aci_q_init_result)
  have f2: "m_aci_q_flush N ?s' = Inr ?s'"
    using tx' rx' by (simp add: m_aci_q_flush_def zz)
  show ?thesis
    using f1 f2 by (simp add: m_aci_q_is_empty_def)
qed

theorem m_aci_q_flush_idempotent_witness:
  "slots_ok 4 3 (mk_queue [[1,7,0,0],[2,5,6,0],[0,0,0,0],[3,1,2,3]] 3 2) \<and>
   slots_ok 4 3 (mk_queue [[9,9,9,9],[9,9,9,9],[9,9,9,9],[9,9,9,9]] 1 3) \<and>
   (\<exists>s'. m_aci_q_flush 4
            (mk_tl (mk_queue [[1,7,0,0],[2,5,6,0],[0,0,0,0],[3,1,2,3]] 3 2)
                   (mk_queue [[9,9,9,9],[9,9,9,9],[9,9,9,9],[9,9,9,9]] 1 3)
                   (mk_data [0,0,0,0]) True 2) = Inr s' \<and>
         head (aci_tx_q s') = 0 \<and> tail (aci_tx_q s') = 0 \<and>
         head (aci_rx_q s') = 0 \<and> tail (aci_rx_q s') = 0 \<and>
         m_aci_q_is_empty (aci_tx_q s') \<and> m_aci_q_is_empty (aci_rx_q s') \<and>
         m_aci_q_flush 4 s' = Inr s')"
proof -
  let ?tx = "mk_queue [[1,7,0,0],[2,5,6,0],[0,0,0,0],[3,1,2,3]] 3 2"
  let ?rx = "mk_queue [[9,9,9,9],[9,9,9,9],[9,9,9,9],[9,9,9,9]] 1 3"
  let ?s = "mk_tl ?tx ?rx (mk_data [0,0,0,0]) True 2"
  have a: "slots_ok 4 3 ?tx" and b: "slots_ok 4 3 ?rx"
    by (simp_all add: slots_ok_def mk_queue_def mk_data_def data_ok_def)
  have a': "slots_ok 4 3 (aci_tx_q ?s)" and b': "slots_ok 4 3 (aci_rx_q ?s)"
    using a b by (simp_all add: mk_tl_def)
  have n: "(4::nat) \<le> 255" "(0::nat) < 3" by simp_all
  from a b m_aci_q_flush_idempotent [OF n a' b'] show ?thesis by (intro conjI)
qed

section \<open>The length of a transaction\<close>

lemma poll_loop_result:
  assumes "unat max_bytes < length (buffer (received_data s))" "byte_cnt \<le> max_bytes"
  shows "\<exists>s'. hal_aci_tl_poll_get_loop dev max_bytes dts byte_cnt byte_sent_cnt s = Inr s' \<and>
           s' = s\<lparr>received_data := received_data s', spi_mosi := spi_mosi s'\<rparr> \<and>
           length (spi_mosi s') = length (spi_mosi s) + (unat max_bytes - unat byte_cnt) \<and>
           length (buffer (received_data s')) = length (buffer (received_data s)) \<and>
           buffer (received_data s') ! 0 = buffer (received_data s) ! 0 \<and>
           status_byte (received_data s') = status_byte (received_data s)"
  using assms
proof (induction "unat max_bytes - unat byte_cnt" arbitrary: byte_cnt byte_sent_cnt s)
  case 0
  then have nlt: "\<not> byte_cnt < max_bytes" and "unat max_bytes - unat byte_cnt = 0"
    by (simp_all add: word_less_nat_alt)
  then show ?case by (subst hal_aci_tl_poll_get_loop.simps) simp
next
  case (Suc k)
  then have lt: "byte_cnt < max_bytes" by (simp add: word_less_nat_alt)
  have su: "unat (byte_cnt + 1) = unat byte_cnt + 1" using lt by (rule u8_succ)
  have ult: "unat byte_cnt < unat max_bytes" using lt by (simp add: word_less_nat_alt)
  let ?r = "dev (length (spi_mosi s))"
  let ?s1 = "s\<lparr>spi_mosi := spi_mosi s @ [byte_at dts (unat byte_sent_cnt)]\<rparr>"
  let ?s2 = "?s1\<lparr>received_data := (received_data ?s1)
                 \<lparr>buffer := (buffer (received_data ?s1))[unat byte_cnt + 1 := ?r]\<rparr>\<rparr>"
  have fits: "unat byte_cnt + 1 < length (buffer (received_data ?s1))"
    using ult Suc.prems(1) by simp
  have step: "hal_aci_tl_poll_get_loop dev max_bytes dts byte_cnt byte_sent_cnt s =
              hal_aci_tl_poll_get_loop dev max_bytes dts (byte_cnt + 1) (byte_sent_cnt + 1) ?s2"
    using lt fits by (subst hal_aci_tl_poll_get_loop.simps) (simp add: spi_readwrite_def Let_def)
  have k: "k = unat max_bytes - unat (byte_cnt + 1)" using Suc.hyps(2) su by simp
  have p1: "unat max_bytes < length (buffer (received_data ?s2))" using Suc.prems(1) by simp
  have p2: "byte_cnt + 1 \<le> max_bytes" using ult su by (simp add: word_le_nat_alt)
  from Suc.hyps(1) [OF k p1 p2, of "byte_sent_cnt + 1"] obtain s' where
    r: "hal_aci_tl_poll_get_loop dev max_bytes dts (byte_cnt + 1) (byte_sent_cnt + 1) ?s2 = Inr s'"
       "s' = ?s2\<lparr>received_data := received_data s', spi_mosi := spi_mosi s'\<rparr>"
       "length (spi_mosi s') = length (spi_mosi ?s2) + (unat max_bytes - unat (byte_cnt + 1))"
       "length (buffer (received_data s')) = length (buffer (received_data ?s2))"
       "buffer (received_data s') ! 0 = buffer (received_data ?s2) ! 0"
       "status_byte (received_data s') = status_byte (received_data ?s2)"
    by blast
  have f: "s' = s\<lparr>received_data := received_data s', spi_mosi := spi_mosi s'\<rparr>"
    by (subst r(2)) simp
  have l: "length (spi_mosi s') = length (spi_mosi s) + (unat max_bytes - unat byte_cnt)"
    using r(3) su ult by simp
  have b: "length (buffer (received_data s')) = length (buffer (received_data s))"
    using r(4) by simp
  have z: "buffer (received_data s') ! 0 = buffer (received_data s) ! 0"
    using r(5) by simp
  have st: "status_byte (received_data s') = status_byte (received_data s)"
    using r(6) by simp
  show ?case
    unfolding step using r(1) f l b z st by blast
qed

lemma u8_pred: "unat (word_of_int (uint lh - 1) :: u8) = unat lh - 1" if "lh \<noteq> 0" for lh :: u8
proof -
  have pos: "0 < unat lh" using that by (simp add: unat_gt_0)
  have "uint lh = int (unat lh)" by simp
  with pos have "uint lh - 1 = int (unat lh - 1)" by linarith
  then have "(word_of_int (uint lh - 1) :: u8) = of_nat (unat lh - 1)"
    by (simp only: of_int_of_nat_eq)
  moreover have "unat lh - 1 < 256" using u8_bound [of lh] by simp
  ultimately show ?thesis by (simp only: u8_of_nat)
qed

lemma u8_cmp: "uint ld > uint lh - 1 \<longleftrightarrow> unat ld > unat lh - 1" if "lh \<noteq> 0" for lh ld :: u8
proof -
  have pos: "0 < unat lh" using that by (simp add: unat_gt_0)
  have "uint lh = int (unat lh)" "uint ld = int (unat ld)" by simp_all
  with pos show ?thesis by linarith
qed

lemma u8_int_less: "int M < uint (w::u8) \<longleftrightarrow> M < unat w"
proof -
  have "uint w = int (unat w)" by simp
  then show ?thesis by linarith
qed

lemma max_bytes_unat: "unat (max_bytes_of M lh ld) = negotiated M (unat lh) (unat ld)"
proof -
  let ?mb = "(if 0 = lh then ld else if uint ld > uint lh - 1 then ld
              else word_of_int (uint lh - 1)) :: u8"
  have mb: "unat ?mb = (if unat lh = 0 then unat ld else max (unat ld) (unat lh - 1))"
  proof (cases "lh = 0")
    case True
    then show ?thesis by simp
  next
    case False
    then have pos: "unat lh \<noteq> 0" by (simp add: unat_eq_0)
    show ?thesis
    proof (cases "uint ld > uint lh - 1")
      case True
      then have "unat ld > unat lh - 1" using u8_cmp [OF False] by simp
      then show ?thesis using False True pos by (simp add: max_def)
    next
      case F2: False
      then have "\<not> unat ld > unat lh - 1" using u8_cmp [OF False] by simp
      then show ?thesis using False F2 pos u8_pred [OF False] by (simp add: max_def)
    qed
  qed
  have clamp: "unat (if int M < uint ?mb then of_nat M else ?mb :: u8) = min M (unat ?mb)"
  proof (cases "int M < uint ?mb")
    case True
    then have "M < unat ?mb" using u8_int_less [of M ?mb] by blast
    moreover have "unat ?mb < 256" by (rule u8_bound)
    ultimately have "unat (of_nat M :: u8) = M" "min M (unat ?mb) = M"
      by (simp_all add: u8_of_nat)
    moreover have "(if int M < uint ?mb then of_nat M else ?mb :: u8) = of_nat M"
      using True by (simp only: if_True)
    ultimately show ?thesis by (simp only:)
  next
    case False
    then have "\<not> M < unat ?mb" using u8_int_less [of M ?mb] by blast
    then have "min M (unat ?mb) = unat ?mb" by simp
    moreover have "(if int M < uint ?mb then of_nat M else ?mb :: u8) = ?mb"
      using False by (simp only: if_False)
    ultimately show ?thesis by (simp only:)
  qed
  show ?thesis
    unfolding negotiated_def max_bytes_of_def Let_def clamp mb by simp
qed

lemma poll_get_result:
  assumes "queue_ok N M (aci_tx_q s)" "data_ok M (received_data s)"
  shows "\<exists>s'. hal_aci_tl_poll_get N M dev s = Inr s' \<and>
           aci_rx_q s' = aci_rx_q s \<and> EIMSK s' = EIMSK s \<and>
           interface_is_interrupt s' = interface_is_interrupt s \<and>
           aci_debug_print s' = aci_debug_print s \<and> serial s' = serial s \<and>
           aci_tx_q s' = (if m_aci_q_is_empty (aci_tx_q s) then aci_tx_q s
                          else popped N (aci_tx_q s)) \<and>
           rdy_attached s' = (interface_is_interrupt s \<or> rdy_attached s) \<and>
           data_ok M (received_data s') \<and>
           buffer (received_data s') ! 0 = dev (length (spi_mosi s) + 1) \<and>
           length (spi_mosi s') =
             length (spi_mosi s) + 2 +
             negotiated M (unat (host_length (aci_tx_q s))) (unat (dev (length (spi_mosi s) + 1)))"
proof -
  let ?tx = "aci_tx_q s"
  let ?slot = "aci_data ?tx ! unat (head ?tx)"
  let ?dts = "if m_aci_q_is_empty ?tx then [Some 0] else map Some (buffer ?slot)"
  let ?lh = "host_length ?tx"
  let ?ld = "dev (length (spi_mosi s) + 1)"
  let ?q = "if m_aci_q_is_empty ?tx then ?tx else popped N ?tx"
  let ?mb = "max_bytes_of M ?lh ?ld"
  let ?s6 = "s\<lparr>reqn_pin := reqn_pin s @ [0], aci_tx_q := ?q,
               spi_mosi := spi_mosi s @ [byte_at ?dts 0, byte_at ?dts 1],
               received_data := (received_data s)
                 \<lparr>status_byte := dev (length (spi_mosi s)),
                  buffer := (buffer (received_data s))[0 := ?ld]\<rparr>\<rparr>"
  have h: "unat (head ?tx) < N" using assms(1) by (simp add: queue_ok_def)
  have "data_ok M ?slot"
    using assms(1) h slot_ok [of N M ?tx "unat (head ?tx)"] by (simp add: queue_ok_def)
  then have slot_ne: "buffer ?slot \<noteq> []" by (auto simp: data_ok_def)
  have rd_len: "length (buffer (received_data s)) = M + 1"
    using assms(2) by (simp add: data_ok_def)
  then have rd_ne: "buffer (received_data s) \<noteq> []" by auto
  have b0: "byte_at ?dts 0 = Some ?lh"
    using slot_ne by (simp add: byte_at_def host_length_def nth_map)
  have "unat ?mb \<le> M"
    by (simp add: max_bytes_unat negotiated_def)
  then have fits: "unat ?mb < length (buffer (received_data ?s6))"
    using rd_len by simp
  from poll_loop_result [OF fits, of 0 dev ?dts 2] obtain s7 where
    l: "hal_aci_tl_poll_get_loop dev ?mb ?dts 0 2 ?s6 = Inr s7"
       "s7 = ?s6\<lparr>received_data := received_data s7, spi_mosi := spi_mosi s7\<rparr>"
       "length (spi_mosi s7) = length (spi_mosi ?s6) + (unat ?mb - unat (0::u8))"
       "length (buffer (received_data s7)) = length (buffer (received_data ?s6))"
       "buffer (received_data s7) ! 0 = buffer (received_data ?s6) ! 0"
    by auto
  let ?s9 = "s7\<lparr>reqn_pin := reqn_pin s7 @ [1],
               rdy_attached := (interface_is_interrupt s7 \<or> rdy_attached s7)\<rparr>"
  let ?s' = "if \<not> m_aci_q_is_empty (aci_tx_q ?s9)
             then ?s9\<lparr>reqn_pin := reqn_pin ?s9 @ [0]\<rparr> else ?s9"
  have deq: "m_aci_q_dequeue N ?tx True =
               (if m_aci_q_is_empty ?tx then Inr (False, ?tx, None)
                else Inr (True, popped N ?tx, Some ?slot))"
    using dequeue_result [OF assms(1), of True] by simp
  have run: "hal_aci_tl_poll_get N M dev s = Inr ?s'"
    unfolding hal_aci_tl_poll_get_def
    using deq b0 rd_ne l(1)
    by (cases "m_aci_q_is_empty ?tx")
       (simp_all add: Let_def digitalWrite_reqn_def spi_readwrite_def host_length_def)
  have f7: "aci_rx_q s7 = aci_rx_q s" "EIMSK s7 = EIMSK s"
    "interface_is_interrupt s7 = interface_is_interrupt s"
    "aci_debug_print s7 = aci_debug_print s" "serial s7 = serial s"
    "aci_tx_q s7 = ?q" "rdy_attached s7 = rdy_attached s"
    by (subst l(2), simp)+
  have rd7: "data_ok M (received_data s7)"
    using l(4) rd_len by (simp add: data_ok_def)
  have ld7: "buffer (received_data s7) ! 0 = ?ld"
    using l(5) rd_len by simp
  have len7: "length (spi_mosi s7) = length (spi_mosi s) + 2 + negotiated M (unat ?lh) (unat ?ld)"
    using l(3) by (simp add: max_bytes_unat)
  show ?thesis
    unfolding run using f7 rd7 ld7 len7 by simp
qed

text \<open>
  Claim C1. \<open>hal_aci_tl_poll_get\<close> returns, and it has then exchanged two header bytes
  and, after them, as many bytes as follows, where \<open>Lh\<close> is the length byte of the host
  (\<open>host_length\<close>) and \<open>Ld\<close> the byte the device sent in the second exchange: \<open>Ld\<close>
  when \<open>Lh = 0\<close> and the larger of \<open>Ld\<close> and \<open>Lh - 1\<close> when \<open>Lh > 0\<close>, never more than
  \<open>M\<close>. The bytes exchanged are counted on \<open>spi_mosi\<close>, which grows by one for every
  \<open>spi_readwrite\<close>.
\<close>

theorem transaction_length:
  assumes "queue_ok N M (aci_tx_q s)" "data_ok M (received_data s)"
  shows "\<exists>s'. hal_aci_tl_poll_get N M dev s = Inr s' \<and>
           length (spi_mosi s') =
             length (spi_mosi s) + 2 +
             (if host_length (aci_tx_q s) = 0
              then min M (unat (dev (length (spi_mosi s) + 1)))
              else min M (max (unat (dev (length (spi_mosi s) + 1)))
                              (unat (host_length (aci_tx_q s)) - 1)))"
proof -
  from poll_get_result [OF assms, of dev] obtain s' where
    r: "hal_aci_tl_poll_get N M dev s = Inr s'"
       "length (spi_mosi s') =
          length (spi_mosi s) + 2 +
          negotiated M (unat (host_length (aci_tx_q s))) (unat (dev (length (spi_mosi s) + 1)))"
    by blast
  have "negotiated M (unat (host_length (aci_tx_q s))) (unat (dev (length (spi_mosi s) + 1))) =
        (if host_length (aci_tx_q s) = 0
         then min M (unat (dev (length (spi_mosi s) + 1)))
         else min M (max (unat (dev (length (spi_mosi s) + 1)))
                         (unat (host_length (aci_tx_q s)) - 1)))"
    by (simp add: negotiated_def unat_eq_0)
  with r show ?thesis by simp
qed

theorem transaction_length_witness:
  "queue_ok 4 10 (mk_queue [3 # replicate 10 0, replicate 11 0, replicate 11 0, replicate 11 0] 0 1) \<and>
   data_ok 10 (mk_data (replicate 11 0)) \<and>
   host_length (mk_queue [3 # replicate 10 0, replicate 11 0, replicate 11 0, replicate 11 0] 0 1) = 3 \<and>
   (\<exists>s'. hal_aci_tl_poll_get 4 10 (\<lambda>i. if i = 1 then 8 else 0)
            (mk_tl (mk_queue [3 # replicate 10 0, replicate 11 0, replicate 11 0, replicate 11 0] 0 1)
                   (mk_queue [replicate 11 0, replicate 11 0, replicate 11 0, replicate 11 0] 0 0)
                   (mk_data (replicate 11 0)) True 2) = Inr s' \<and>
         length (spi_mosi s') = 2 + 8)"
proof -
  let ?tx = "mk_queue [3 # replicate 10 0, replicate 11 0, replicate 11 0, replicate 11 0] 0 1"
  let ?rx = "mk_queue [replicate 11 0, replicate 11 0, replicate 11 0, replicate 11 0] 0 0"
  let ?s = "mk_tl ?tx ?rx (mk_data (replicate 11 0)) True 2"
  let ?dev = "\<lambda>i::nat. if i = 1 then 8 else (0::u8)"
  have a: "queue_ok 4 10 ?tx"
    by (simp add: queue_ok_def slots_ok_def mk_queue_def mk_data_def data_ok_def)
  have b: "data_ok 10 (mk_data (replicate 11 0))" by (simp add: mk_data_def data_ok_def)
  have c: "host_length ?tx = 3"
    by (simp add: host_length_def m_aci_q_is_empty_def mk_queue_def mk_data_def)
  have a': "queue_ok 4 10 (aci_tx_q ?s)" using a by (simp add: mk_tl_def)
  have b': "data_ok 10 (received_data ?s)" using b by (simp add: mk_tl_def)
  have tx: "aci_tx_q ?s = ?tx" and m: "spi_mosi ?s = []" by (simp_all add: mk_tl_def)
  from transaction_length [OF a' b', of ?dev] obtain s' where
    "hal_aci_tl_poll_get 4 10 ?dev ?s = Inr s'" "length (spi_mosi s') = 2 + 8"
    unfolding tx m c by auto
  with a b c show ?thesis by (intro conjI exI)
qed

section \<open>Sending\<close>

text \<open>
  Claim C6. For a packet whose length byte is above \<open>M\<close>, \<open>hal_aci_tl_send\<close> returns false
  and the state as it was. Otherwise it returns what \<open>m_aci_q_enqueue\<close> on the command
  queue returns, which is true exactly when that queue is not full; a 0 is written to
  the REQN pin exactly when it is true; when it is false the state is as it was. (With
  diagnostics on, the packet printed must not have the length byte 255, which
  \<open>M < 255\<close> excludes.)
\<close>

theorem hal_aci_tl_send_result:
  assumes "queue_ok N M (aci_tx_q s)" "data_ok M p" "M < 255 \<or> \<not> aci_debug_print s"
  shows "(M < unat (buffer p ! 0) \<longrightarrow> hal_aci_tl_send N M p s = Inr (False, s)) \<and>
         (unat (buffer p ! 0) \<le> M \<longrightarrow>
            (\<exists>ok q out.
               m_aci_q_enqueue N (aci_tx_q s) p = Inr (ok, q) \<and>
               (ok \<longleftrightarrow> \<not> m_aci_q_is_full N (aci_tx_q s)) \<and>
               hal_aci_tl_send N M p s =
                 Inr (ok, s\<lparr>aci_tx_q := q,
                             reqn_pin := (if ok then reqn_pin s @ [0] else reqn_pin s),
                             serial := out\<rparr>) \<and>
               (\<not> ok \<longrightarrow> q = aci_tx_q s \<and> out = serial s) \<and>
               (\<not> aci_debug_print s \<longrightarrow> out = serial s)))"
proof -
  obtain len rest where b: "buffer p = len # rest"
    using assms(2) by (cases "buffer p") (auto simp: data_ok_def)
  then have ne: "buffer p \<noteq> []" and b0: "buffer p ! 0 = len" by simp_all
  have big: "M < unat (buffer p ! 0) \<longrightarrow> hal_aci_tl_send N M p s = Inr (False, s)"
    using b by (simp add: hal_aci_tl_send_def u8_int_less)
  have small: "\<exists>ok q out.
               m_aci_q_enqueue N (aci_tx_q s) p = Inr (ok, q) \<and>
               (ok \<longleftrightarrow> \<not> m_aci_q_is_full N (aci_tx_q s)) \<and>
               hal_aci_tl_send N M p s =
                 Inr (ok, s\<lparr>aci_tx_q := q,
                             reqn_pin := (if ok then reqn_pin s @ [0] else reqn_pin s),
                             serial := out\<rparr>) \<and>
               (\<not> ok \<longrightarrow> q = aci_tx_q s \<and> out = serial s) \<and>
               (\<not> aci_debug_print s \<longrightarrow> out = serial s)"
    if le: "unat (buffer p ! 0) \<le> M"
  proof (cases "m_aci_q_is_full N (aci_tx_q s)")
    case True
    then have e: "m_aci_q_enqueue N (aci_tx_q s) p = Inr (False, aci_tx_q s)"
      using ne by (rule enqueue_full [rotated])
    have "hal_aci_tl_send N M p s = Inr (False, s)"
      using b e le b0 by (simp add: hal_aci_tl_send_def u8_int_less)
    then have "hal_aci_tl_send N M p s =
                 Inr (False, s\<lparr>aci_tx_q := aci_tx_q s,
                             reqn_pin := (if False then reqn_pin s @ [0] else reqn_pin s),
                             serial := serial s\<rparr>)"
      by simp
    with e True show ?thesis by blast
  next
    case False
    then have e: "m_aci_q_enqueue N (aci_tx_q s) p = Inr (True, pushed N (aci_tx_q s) p)"
      using assms(1,2) le by (simp add: enqueue_not_full)
    show ?thesis
    proof (cases "aci_debug_print s")
      case dbg: True
      with assms(3) have "M < 255" by simp
      with le have "unat (buffer p ! 0) \<noteq> 255" by simp
      then have "buffer p ! 0 \<noteq> 255" by auto
      from m_print_aci_data_returns [OF ne this, of "serial s @ [Print_str ''C'']"]
      obtain out where
        pr: "m_print_aci_data (Some p) (serial s @ [Print_str ''C'']) = Inr out"
        by blast
      have "hal_aci_tl_send N M p s =
              Inr (True, s\<lparr>aci_tx_q := pushed N (aci_tx_q s) p,
                            reqn_pin := (if True then reqn_pin s @ [0] else reqn_pin s),
                            serial := out\<rparr>)"
        using b e le b0 dbg pr
        by (simp add: hal_aci_tl_send_def u8_int_less Let_def digitalWrite_reqn_def)
      with e False dbg show ?thesis by blast
    next
      case nodbg: False
      have "hal_aci_tl_send N M p s =
              Inr (True, s\<lparr>aci_tx_q := pushed N (aci_tx_q s) p,
                            reqn_pin := (if True then reqn_pin s @ [0] else reqn_pin s),
                            serial := serial s\<rparr>)"
        using b e le b0 nodbg
        by (simp add: hal_aci_tl_send_def u8_int_less Let_def digitalWrite_reqn_def)
      with e False show ?thesis by blast
    qed
  qed
  from big small show ?thesis by blast
qed

theorem hal_aci_tl_send_result_witness:
  "queue_ok 4 3 (mk_queue [[0,0,0,0],[0,0,0,0],[0,0,0,0],[0,0,0,0]] 0 0) \<and>
   data_ok 3 (mk_data [2,5,6,0]) \<and> unat (buffer (mk_data [2,5,6,0]) ! 0) \<le> 3 \<and>
   (\<exists>ok q out.
      m_aci_q_enqueue 4 (mk_queue [[0,0,0,0],[0,0,0,0],[0,0,0,0],[0,0,0,0]] 0 0) (mk_data [2,5,6,0])
        = Inr (ok, q) \<and> ok \<and>
      hal_aci_tl_send 4 3 (mk_data [2,5,6,0])
          (mk_tl (mk_queue [[0,0,0,0],[0,0,0,0],[0,0,0,0],[0,0,0,0]] 0 0)
                 (mk_queue [[0,0,0,0],[0,0,0,0],[0,0,0,0],[0,0,0,0]] 0 0)
                 (mk_data [0,0,0,0]) True 2)
        = Inr (ok, (mk_tl (mk_queue [[0,0,0,0],[0,0,0,0],[0,0,0,0],[0,0,0,0]] 0 0)
                          (mk_queue [[0,0,0,0],[0,0,0,0],[0,0,0,0],[0,0,0,0]] 0 0)
                          (mk_data [0,0,0,0]) True 2)
                     \<lparr>aci_tx_q := q, reqn_pin := [0], serial := out\<rparr>))"
proof -
  let ?q = "mk_queue [[0,0,0,0],[0,0,0,0],[0,0,0,0],[0,0,0,0]] 0 0"
  let ?p = "mk_data [2,5,6,0]"
  let ?s = "mk_tl ?q ?q (mk_data [0,0,0,0]) True 2"
  have a: "queue_ok 4 3 ?q"
    by (simp add: queue_ok_def slots_ok_def mk_queue_def mk_data_def data_ok_def)
  have b: "data_ok 3 ?p" by (simp add: mk_data_def data_ok_def)
  have c: "unat (buffer ?p ! 0) \<le> 3" by (simp add: mk_data_def)
  have a': "queue_ok 4 3 (aci_tx_q ?s)" using a by (simp add: mk_tl_def)
  have d: "(3::nat) < 255 \<or> \<not> aci_debug_print ?s" by simp
  have nf: "\<not> m_aci_q_is_full 4 (aci_tx_q ?s)"
    by (simp add: m_aci_q_is_full_def mk_tl_def mk_queue_def next_index_def)
  have tx: "aci_tx_q ?s = ?q" and rq: "reqn_pin ?s = []" by (simp_all add: mk_tl_def)
  from hal_aci_tl_send_result [OF a' b d] c obtain ok q out where
    r: "m_aci_q_enqueue 4 (aci_tx_q ?s) ?p = Inr (ok, q)"
       "ok \<longleftrightarrow> \<not> m_aci_q_is_full 4 (aci_tx_q ?s)"
       "hal_aci_tl_send 4 3 ?p ?s =
          Inr (ok, ?s\<lparr>aci_tx_q := q,
                       reqn_pin := (if ok then reqn_pin ?s @ [0] else reqn_pin ?s),
                       serial := out\<rparr>)"
    by blast
  from r(2) nf have ok: ok by simp
  have e: "m_aci_q_enqueue 4 ?q ?p = Inr (ok, q)" using r(1) tx by simp
  have f: "hal_aci_tl_send 4 3 ?p ?s = Inr (ok, ?s\<lparr>aci_tx_q := q, reqn_pin := [0], serial := out\<rparr>)"
    using r(3) ok rq by simp
  from a b c e ok f show ?thesis by (intro conjI exI)
qed

section \<open>The RDYN handler\<close>

lemma is_full_iff: "m_aci_q_is_full N q \<longleftrightarrow> next_index N (tail q) = head q"
  by (simp add: m_aci_q_is_full_def Let_def)

lemma rdy_handle_result:
  assumes "tl_ok N M s"
  shows "\<exists>s2. aci_rx_q s2 = aci_rx_q s \<and> EIMSK s2 = EIMSK s \<and>
           interface_is_interrupt s2 = interface_is_interrupt s \<and>
           aci_debug_print s2 = aci_debug_print s \<and> serial s2 = serial s \<and>
           aci_tx_q s2 = (if m_aci_q_is_empty (aci_tx_q s) then aci_tx_q s
                          else popped N (aci_tx_q s)) \<and>
           rdy_attached s2 = (interface_is_interrupt s \<or> rdy_attached s) \<and>
           data_ok M (received_data s2) \<and>
           buffer (received_data s2) ! 0 = dev (length (spi_mosi s) + 1) \<and>
           m_rdy_line_handle N M dev s =
             (if dev (length (spi_mosi s) + 1) = 0 then Inr s2
              else if m_aci_q_is_full N (aci_rx_q s) then Inl Halted
              else if M < unat (dev (length (spi_mosi s) + 1)) then Inl Bad_Access
              else Inr (s2\<lparr>aci_rx_q := pushed N (aci_rx_q s) (received_data s2),
                            EIMSK := (if m_aci_q_is_full N (pushed N (aci_rx_q s) (received_data s2))
                                         \<and> interface_is_interrupt s
                                      then EIMSK s AND NOT 2 else EIMSK s)\<rparr>))"
proof -
  let ?s1 = "if interface_is_interrupt s then s\<lparr>rdy_attached := False\<rparr> else s"
  let ?ld = "dev (length (spi_mosi s) + 1)"
  have tx: "queue_ok N M (aci_tx_q ?s1)" and rx: "queue_ok N M (aci_rx_q s)"
    and rd: "data_ok M (received_data ?s1)"
    using assms by (simp_all add: tl_ok_def)
  from poll_get_result [OF tx rd, of dev] obtain s2 where
    p: "hal_aci_tl_poll_get N M dev ?s1 = Inr s2"
       "aci_rx_q s2 = aci_rx_q s" "EIMSK s2 = EIMSK s"
       "interface_is_interrupt s2 = interface_is_interrupt s"
       "aci_debug_print s2 = aci_debug_print s" "serial s2 = serial s"
       "aci_tx_q s2 = (if m_aci_q_is_empty (aci_tx_q s) then aci_tx_q s
                          else popped N (aci_tx_q s))"
       "rdy_attached s2 = (interface_is_interrupt ?s1 \<or> rdy_attached ?s1)"
       "data_ok M (received_data s2)"
       "buffer (received_data s2) ! 0 = ?ld"
    by (auto split: if_splits)
  have att: "rdy_attached s2 = (interface_is_interrupt s \<or> rdy_attached s)"
    using p(8) by (simp split: if_splits)
  obtain b0 rest where b: "buffer (received_data s2) = b0 # rest"
    using p(9) by (cases "buffer (received_data s2)") (auto simp: data_ok_def)
  with p(10) have b0: "b0 = ?ld" by simp
  have ne: "buffer (received_data s2) \<noteq> []" using b by simp
  have pos: "0 < ?ld \<longleftrightarrow> ?ld \<noteq> 0" by (simp add: word_greater_zero_iff)
  have run: "m_rdy_line_handle N M dev s =
             (if ?ld = 0 then Inr s2
              else if m_aci_q_is_full N (aci_rx_q s) then Inl Halted
              else if M < unat ?ld then Inl Bad_Access
              else Inr (s2\<lparr>aci_rx_q := pushed N (aci_rx_q s) (received_data s2),
                            EIMSK := (if m_aci_q_is_full N (pushed N (aci_rx_q s) (received_data s2))
                                         \<and> interface_is_interrupt s
                                      then EIMSK s AND NOT 2 else EIMSK s)\<rparr>))"
  proof (cases "?ld = 0")
    case True
    then show ?thesis
      using p(1) b b0 by (simp add: m_rdy_line_handle_def Let_def)
  next
    case nz: False
    show ?thesis
    proof (cases "m_aci_q_is_full N (aci_rx_q s)")
      case True
      then have "m_aci_q_enqueue N (aci_rx_q s2) (received_data s2) = Inr (False, aci_rx_q s)"
        using ne p(2) by (simp add: enqueue_full)
      then show ?thesis
        using p(1) b b0 nz True pos by (simp add: m_rdy_line_handle_def Let_def)
    next
      case nf: False
      show ?thesis
      proof (cases "M < unat ?ld")
        case True
        have "length (buffer (received_data s2)) = M + 1" using p(9) by (simp add: data_ok_def)
        moreover have "next_index N (tail (aci_rx_q s)) \<noteq> head (aci_rx_q s)"
          using nf by (simp add: is_full_iff)
        ultimately have "m_aci_q_enqueue N (aci_rx_q s2) (received_data s2) = Inl Bad_Access"
          using True ne rx p(2,10)
          by (simp add: m_aci_q_enqueue_def Let_def queue_ok_def slots_ok_def)
        then show ?thesis
          using p(1) b b0 nz nf True pos by (simp add: m_rdy_line_handle_def Let_def)
      next
        case False
        then have le: "unat (buffer (received_data s2) ! 0) \<le> M" using p(10) by simp
        have "m_aci_q_enqueue N (aci_rx_q s2) (received_data s2) =
                Inr (True, pushed N (aci_rx_q s) (received_data s2))"
          using enqueue_not_full [OF rx p(9) le nf] p(2) by simp
        then show ?thesis
          using p(1,3,4) b b0 nz nf False pos
          by (simp add: m_rdy_line_handle_def Let_def)
      qed
    qed
  qed
  show ?thesis
    using p(2-7) att p(9,10) run by blast
qed

section \<open>The invariant of the steps\<close>

lemma bit1_clear: "\<not> bit (w AND NOT 2 :: u8) 1"
  by (simp add: bit_simps)

lemma bit1_set: "bit (w OR 2 :: u8) 1"
  by (simp add: bit_simps)

lemma stored_length_byte:
  "buffer (stored slot p) ! 0 = buffer p ! 0" if "buffer p \<noteq> []"
  using that by (cases "buffer p") (simp_all add: stored_def memcpy_def)

lemma popped_not_full:
  assumes "0 < N" "N \<le> 256" "queue_ok N M q" "\<not> m_aci_q_is_empty q"
  shows "\<not> m_aci_q_is_full N (popped N q)"
proof -
  have h: "unat (head q) < N" and t: "unat (tail q) < N"
    using assms(3) by (simp_all add: queue_ok_def)
  have c: "q_count N (popped N q) = q_count N q - 1"
    using assms(1,2) h t assms(4) by (rule popped_count)
  have pos: "q_count N q \<noteq> 0" using assms(4) h t by (simp add: is_empty_count)
  have lt: "q_count N q < N" using assms(1) by (simp add: q_count_def)
  have ok': "queue_ok N M (popped N q)" using assms(1,2,3) by (rule popped_ok)
  then have "m_aci_q_is_full N (popped N q) \<longleftrightarrow> q_count N (popped N q) = N - 1"
    using assms(1,2) by (simp add: queue_ok_def is_full_count)
  with c pos lt show ?thesis by simp
qed

lemma rdy_handle_inv:
  assumes "0 < N" "N \<le> 256" "rx_inv N M s" "m_rdy_line_handle N M dev s = Inr s'"
  shows "rx_inv N M s' \<and> interface_is_interrupt s' = interface_is_interrupt s"
proof -
  let ?ld = "dev (length (spi_mosi s) + 1)"
  let ?rx = "aci_rx_q s"
  have ok: "tl_ok N M s" and nz: "list_all (\<lambda>d. buffer d ! 0 \<noteq> 0) (q_contents N ?rx)"
    and mask: "interface_is_interrupt s \<and> m_aci_q_is_full N ?rx \<longrightarrow> \<not> bit (EIMSK s) 1"
    using assms(3) by (simp_all add: rx_inv_def)
  have txok: "queue_ok N M (aci_tx_q s)" and rxok: "queue_ok N M ?rx"
    using ok by (simp_all add: tl_ok_def)
  from rdy_handle_result [OF ok, of dev] obtain s2 where
    f: "aci_rx_q s2 = ?rx" "EIMSK s2 = EIMSK s"
       "interface_is_interrupt s2 = interface_is_interrupt s"
       "aci_tx_q s2 = (if m_aci_q_is_empty (aci_tx_q s) then aci_tx_q s
                          else popped N (aci_tx_q s))"
       "data_ok M (received_data s2)"
       "buffer (received_data s2) ! 0 = ?ld" and
    r: "m_rdy_line_handle N M dev s =
             (if ?ld = 0 then Inr s2
              else if m_aci_q_is_full N ?rx then Inl Halted
              else if M < unat ?ld then Inl Bad_Access
              else Inr (s2\<lparr>aci_rx_q := pushed N ?rx (received_data s2),
                            EIMSK := (if m_aci_q_is_full N (pushed N ?rx (received_data s2))
                                         \<and> interface_is_interrupt s
                                      then EIMSK s AND NOT 2 else EIMSK s)\<rparr>))"
    by blast
  have tx2: "queue_ok N M (aci_tx_q s2)"
    using f(4) txok popped_ok [OF assms(1,2) txok] by simp
  show ?thesis
  proof (cases "?ld = 0")
    case True
    with r assms(4) have "s' = s2" by simp
    then show ?thesis
      using f tx2 rxok nz mask by (simp add: rx_inv_def tl_ok_def)
  next
    case False
    with r assms(4) have nf: "\<not> m_aci_q_is_full N ?rx" and le: "\<not> M < unat ?ld"
      and s': "s' = s2\<lparr>aci_rx_q := pushed N ?rx (received_data s2),
                            EIMSK := (if m_aci_q_is_full N (pushed N ?rx (received_data s2))
                                         \<and> interface_is_interrupt s
                                      then EIMSK s AND NOT 2 else EIMSK s)\<rparr>"
      by (simp_all split: if_splits)
    have ne: "buffer (received_data s2) \<noteq> []" using f(5) by (auto simp: data_ok_def)
    have pl: "unat (buffer (received_data s2) ! 0) + 1 \<le> length (buffer (received_data s2))"
      using f(5,6) le by (simp add: data_ok_def)
    have lm: "unat (buffer (received_data s2) ! 0) \<le> M" using f(6) le by simp
    have rx': "queue_ok N M (pushed N ?rx (received_data s2))"
      using assms(1,2) rxok pl lm by (rule pushed_ok)
    have con: "q_contents N (pushed N ?rx (received_data s2)) =
               q_contents N ?rx @ [stored (aci_data ?rx ! unat (tail ?rx)) (received_data s2)]"
      using assms(1,2) rxok nf by (rule pushed_contents)
    have "buffer (stored (aci_data ?rx ! unat (tail ?rx)) (received_data s2)) ! 0 \<noteq> 0"
      using stored_length_byte [OF ne] f(6) False by simp
    with con nz have nz': "list_all (\<lambda>d. buffer d ! 0 \<noteq> 0)
                             (q_contents N (pushed N ?rx (received_data s2)))"
      by simp
    show ?thesis
      unfolding s' using f tx2 rx' nz' bit1_clear
      by (simp add: rx_inv_def tl_ok_def)
  qed
qed

lemma rdy_handle_not_halted:
  assumes "rx_inv N M s" "rdy_enabled s"
  shows "m_rdy_line_handle N M dev s \<noteq> Inl Halted"
proof -
  have ok: "tl_ok N M s" using assms(1) by (simp add: rx_inv_def)
  have nf: "\<not> m_aci_q_is_full N (aci_rx_q s)"
    using assms by (auto simp: rx_inv_def rdy_enabled_def)
  from rdy_handle_result [OF ok, of dev] obtain s2 where
    "m_rdy_line_handle N M dev s =
             (if dev (length (spi_mosi s) + 1) = 0 then Inr s2
              else if m_aci_q_is_full N (aci_rx_q s) then Inl Halted
              else if M < unat (dev (length (spi_mosi s) + 1)) then Inl Bad_Access
              else Inr (s2\<lparr>aci_rx_q := pushed N (aci_rx_q s) (received_data s2),
                            EIMSK := (if m_aci_q_is_full N (pushed N (aci_rx_q s) (received_data s2))
                                         \<and> interface_is_interrupt s
                                      then EIMSK s AND NOT 2 else EIMSK s)\<rparr>))"
    by blast
  with nf show ?thesis by simp
qed

lemma device_query_inv:
  assumes "0 < N" "N \<le> 256" "rx_inv N M s" "m_aci_device_query N M dev rdyn s = Inr s1"
  shows "rx_inv N M s1 \<and> interface_is_interrupt s1 = interface_is_interrupt s"
proof (cases "0 = rdyn")
  case True
  with assms(4) have "m_rdy_line_handle N M dev s = Inr s1"
    by (simp add: m_aci_device_query_def)
  with assms(1,2,3) show ?thesis by (rule rdy_handle_inv)
next
  case False
  with assms(4) have "s1 = digitalWrite_reqn 0 s \<or> s1 = s"
    by (auto simp: m_aci_device_query_def split: if_splits)
  with assms(3) show ?thesis
    by (auto simp: rx_inv_def tl_ok_def digitalWrite_reqn_def)
qed

lemma query_step_inv:
  assumes "0 < N" "N \<le> 256" "rx_inv N M s"
    "(if \<not> interface_is_interrupt s then m_aci_device_query N M dev rdyn s else Inr s) = Inr s1"
  shows "rx_inv N M s1 \<and> interface_is_interrupt s1 = interface_is_interrupt s"
proof (cases "interface_is_interrupt s")
  case True
  with assms(4) have "s1 = s" by simp
  with assms(3) show ?thesis by simp
next
  case False
  with assms(4) have "m_aci_device_query N M dev rdyn s = Inr s1" by simp
  with assms(1,2,3) show ?thesis by (rule device_query_inv)
qed

lemma front_nonzero:
  assumes "0 < N" "N \<le> 256" "rx_inv N M s" "\<not> m_aci_q_is_empty (aci_rx_q s)"
  shows "buffer (aci_data (aci_rx_q s) ! unat (head (aci_rx_q s))) ! 0 \<noteq> 0 \<and>
         list_all (\<lambda>d. buffer d ! 0 \<noteq> 0) (q_contents N (popped N (aci_rx_q s)))"
proof -
  have rxok: "queue_ok N M (aci_rx_q s)" using assms(3) by (simp add: rx_inv_def tl_ok_def)
  then have h: "unat (head (aci_rx_q s)) < N" and t: "unat (tail (aci_rx_q s)) < N"
    by (simp_all add: queue_ok_def)
  have "q_contents N (aci_rx_q s) =
          aci_data (aci_rx_q s) ! unat (head (aci_rx_q s)) # q_contents N (popped N (aci_rx_q s))"
    using assms(1,2) h t assms(4) by (rule popped_contents)
  moreover have "list_all (\<lambda>d. buffer d ! 0 \<noteq> 0) (q_contents N (aci_rx_q s))"
    using assms(3) by (simp add: rx_inv_def)
  ultimately show ?thesis by simp
qed

lemma event_get_inv:
  assumes "0 < N" "N \<le> 256" "rx_inv N M s"
    "hal_aci_tl_event_get N M dev rdyn dst s = Inr (ok, c, s')"
  shows "rx_inv N M s' \<and> interface_is_interrupt s' = interface_is_interrupt s \<and>
         (\<forall>d. c = Some d \<longrightarrow> buffer d ! 0 \<noteq> 0)"
proof -
  from assms(4) obtain s1 where
    q: "(if \<not> interface_is_interrupt s then m_aci_device_query N M dev rdyn s else Inr s) = Inr s1"
    by (auto simp: hal_aci_tl_event_get_def split: sum.splits)
  from query_step_inv [OF assms(1,2,3) q] have inv1: "rx_inv N M s1"
    and irq1: "interface_is_interrupt s1 = interface_is_interrupt s" by simp_all
  let ?rx = "aci_rx_q s1"
  have ok1: "tl_ok N M s1" and nz: "list_all (\<lambda>d. buffer d ! 0 \<noteq> 0) (q_contents N ?rx)"
    and mask: "interface_is_interrupt s1 \<and> m_aci_q_is_full N ?rx \<longrightarrow> \<not> bit (EIMSK s1) 1"
    using inv1 by (simp_all add: rx_inv_def)
  have rxok: "queue_ok N M ?rx" using ok1 by (simp add: tl_ok_def)
  have deq: "m_aci_q_dequeue N ?rx dst =
           (if m_aci_q_is_empty ?rx then Inr (False, ?rx, None)
            else Inr (True, popped N ?rx,
                      if dst then Some (aci_data ?rx ! unat (head ?rx)) else None))"
    using rxok by (rule dequeue_result)
  show ?thesis
  proof (cases "m_aci_q_is_empty ?rx")
    case True
    with assms(4) q deq have "s' = s1" "c = None"
      by (simp_all add: hal_aci_tl_event_get_def Let_def)
    with inv1 irq1 show ?thesis by simp
  next
    case False
    from front_nonzero [OF assms(1,2) inv1 False] have
      fr: "buffer (aci_data ?rx ! unat (head ?rx)) ! 0 \<noteq> 0" and
      nz': "list_all (\<lambda>d. buffer d ! 0 \<noteq> 0) (q_contents N (popped N ?rx))"
      by simp_all
    have rx': "queue_ok N M (popped N ?rx)" using assms(1,2) rxok by (rule popped_ok)
    have nf': "\<not> m_aci_q_is_full N (popped N ?rx)"
      using assms(1,2) rxok False by (rule popped_not_full)
    from assms(4) q deq False have
      s': "s' = s1\<lparr>aci_rx_q := popped N ?rx, serial := serial s', EIMSK := EIMSK s'\<rparr>"
      and c: "c = (if dst then Some (aci_data ?rx ! unat (head ?rx)) else None)"
      by (auto simp: hal_aci_tl_event_get_def Let_def split: sum.splits if_splits)
    have "rx_inv N M s'"
      by (subst s') (use ok1 rx' nz' nf' in \<open>simp add: rx_inv_def tl_ok_def\<close>)
    moreover have "interface_is_interrupt s' = interface_is_interrupt s"
      by (subst s') (use irq1 in simp)
    moreover have "\<forall>d. c = Some d \<longrightarrow> buffer d ! 0 \<noteq> 0"
      using c fr by (simp split: if_splits)
    ultimately show ?thesis by blast
  qed
qed

lemma event_peek_inv:
  assumes "0 < N" "N \<le> 256" "rx_inv N M s"
    "hal_aci_tl_event_peek N M dev rdyn dst s = Inr (ok, c, s')"
  shows "rx_inv N M s' \<and> interface_is_interrupt s' = interface_is_interrupt s \<and>
         (\<forall>d. c = Some d \<longrightarrow> buffer d ! 0 \<noteq> 0)"
proof -
  from assms(4) obtain s1 where
    q: "(if \<not> interface_is_interrupt s then m_aci_device_query N M dev rdyn s else Inr s) = Inr s1"
    by (auto simp: hal_aci_tl_event_peek_def split: sum.splits)
  from query_step_inv [OF assms(1,2,3) q] have inv1: "rx_inv N M s1"
    and irq1: "interface_is_interrupt s1 = interface_is_interrupt s" by simp_all
  let ?rx = "aci_rx_q s1"
  show ?thesis
  proof (cases "m_aci_q_is_empty ?rx")
    case True
    then have "m_aci_q_peek ?rx dst = Inr (False, None)"
      by (simp add: m_aci_q_peek_def m_aci_q_is_empty_def)
    with assms(4) q have "s' = s1" "c = None"
      by (simp_all add: hal_aci_tl_event_peek_def)
    with inv1 irq1 show ?thesis by simp
  next
    case False
    from front_nonzero [OF assms(1,2) inv1 False] have
      fr: "buffer (aci_data ?rx ! unat (head ?rx)) ! 0 \<noteq> 0" by simp
    from assms(4) q False have
      s': "s' = s1\<lparr>serial := serial s'\<rparr>"
      and c: "c = Some (aci_data ?rx ! unat (head ?rx))"
      by (auto simp: hal_aci_tl_event_peek_def m_aci_q_peek_def m_aci_q_is_empty_def
               split: sum.splits if_splits)
    have "rx_inv N M s'"
      by (subst s') (use inv1 in \<open>simp add: rx_inv_def tl_ok_def\<close>)
    moreover have "interface_is_interrupt s' = interface_is_interrupt s"
      by (subst s') (use irq1 in simp)
    ultimately show ?thesis using c fr by simp
  qed
qed

lemma enqueue_fault: "m_aci_q_enqueue N q p = Inl e \<Longrightarrow> e = Bad_Access"
  by (auto simp: m_aci_q_enqueue_def Let_def split: if_splits)

lemma dequeue_fault: "m_aci_q_dequeue N q dst = Inl e \<Longrightarrow> e = Bad_Access"
  by (auto simp: m_aci_q_dequeue_def split: if_splits)

lemma peek_fault: "m_aci_q_peek q dst = Inl e \<Longrightarrow> e = Bad_Access"
  by (auto simp: m_aci_q_peek_def split: if_splits)

lemma print_fault: "m_print_aci_data c out = Inl e \<Longrightarrow> e \<noteq> Halted"
  by (auto simp: m_print_aci_data_def split: option.splits list.splits)

lemma send_inv:
  assumes "0 < N" "N \<le> 256" "rx_inv N M s" "hal_aci_tl_send N M p s = Inr (ok, s')"
  shows "rx_inv N M s' \<and> interface_is_interrupt s' = interface_is_interrupt s \<and>
         EIMSK s' = EIMSK s \<and> aci_rx_q s' = aci_rx_q s"
proof -
  have ok0: "tl_ok N M s" using assms(3) by (simp add: rx_inv_def)
  then have txok: "queue_ok N M (aci_tx_q s)" by (simp add: tl_ok_def)
  from assms(4) obtain len rest where b: "buffer p = len # rest"
    by (cases "buffer p") (auto simp: hal_aci_tl_send_def)
  show ?thesis
  proof (cases "int M < uint len")
    case True
    with assms(4) b have "s' = s" by (simp add: hal_aci_tl_send_def)
    with assms(3) show ?thesis by simp
  next
    case False
    then have lm: "unat (buffer p ! 0) \<le> M" using b u8_int_less [of M len] by simp
    from assms(4) b False obtain ok' q where
      e: "m_aci_q_enqueue N (aci_tx_q s) p = Inr (ok', q)" and
      s': "s' = s\<lparr>aci_tx_q := q, reqn_pin := reqn_pin s', serial := serial s'\<rparr>"
      by (auto simp: hal_aci_tl_send_def Let_def digitalWrite_reqn_def
               split: sum.splits if_splits)
    have "queue_ok N M q"
    proof (cases ok')
      case True
      with enqueue_cases [OF e] have "q = pushed N (aci_tx_q s) p"
        "unat (buffer p ! 0) + 1 \<le> length (buffer p)" by simp_all
      then show ?thesis using pushed_ok [OF assms(1,2) txok _ lm] by simp
    next
      case False
      with enqueue_cases [OF e] have "q = aci_tx_q s" by simp
      then show ?thesis using txok by simp
    qed
    then have "rx_inv N M s'"
      by (subst s') (use assms(3) in \<open>simp add: rx_inv_def tl_ok_def\<close>)
    moreover have "interface_is_interrupt s' = interface_is_interrupt s"
      "EIMSK s' = EIMSK s" "aci_rx_q s' = aci_rx_q s"
      by (subst s', simp)+
    ultimately show ?thesis by simp
  qed
qed

lemma send_not_halted: "hal_aci_tl_send N M p s \<noteq> Inl Halted"
proof
  assume "hal_aci_tl_send N M p s = Inl Halted"
  then show False
    by (auto simp: hal_aci_tl_send_def Let_def split: list.splits if_splits sum.splits
             dest: enqueue_fault print_fault)
qed

lemma fresh_queue_ok:
  assumes "2 \<le> N" "slots_ok N M q"
  shows "queue_ok N M (q\<lparr>aci_data := map zero2 (aci_data q), head := 0, tail := 0\<rparr>) \<and>
         q_contents N (q\<lparr>aci_data := map zero2 (aci_data q), head := 0, tail := 0\<rparr>) = [] \<and>
         \<not> m_aci_q_is_full N (q\<lparr>aci_data := map zero2 (aci_data q), head := 0, tail := 0\<rparr>)"
proof -
  let ?q = "q\<lparr>aci_data := map zero2 (aci_data q), head := 0, tail := 0\<rparr>"
  have ok: "queue_ok N M ?q"
    using assms by (simp add: queue_ok_def slots_ok_def list_all_iff zero2_ok)
  have c: "q_count N ?q = 0" by (simp add: q_count_def)
  then have "q_contents N ?q = []" by (simp add: q_contents_def)
  moreover have "(1::nat) mod N = 1" using assms(1) by simp
  then have "\<not> m_aci_q_is_full N ?q"
    by (simp add: is_full_iff next_index_def)
  ultimately show ?thesis using ok by simp
qed

lemma flush_inv:
  assumes "2 \<le> N" "N \<le> 255" "0 < M" "rx_inv N M s"
  shows "\<exists>s'. m_aci_q_flush N s = Inr s' \<and> rx_inv N M s' \<and>
              interface_is_interrupt s' = interface_is_interrupt s \<and> EIMSK s' = EIMSK s"
proof -
  let ?z = "\<lambda>q. q\<lparr>aci_data := map zero2 (aci_data q), head := 0, tail := 0\<rparr>"
  let ?s' = "s\<lparr>aci_tx_q := ?z (aci_tx_q s), aci_rx_q := ?z (aci_rx_q s)\<rparr>"
  have ok: "tl_ok N M s" using assms(4) by (simp add: rx_inv_def)
  then have tx: "slots_ok N M (aci_tx_q s)" and rx: "slots_ok N M (aci_rx_q s)"
    by (simp_all add: tl_ok_def queue_ok_def)
  have "m_aci_q_init N (aci_tx_q s) = Inr (?z (aci_tx_q s))"
    using assms(2,3) tx by (rule m_aci_q_init_result)
  moreover have "m_aci_q_init N (aci_rx_q s) = Inr (?z (aci_rx_q s))"
    using assms(2,3) rx by (rule m_aci_q_init_result)
  ultimately have f: "m_aci_q_flush N s = Inr ?s'" by (simp add: m_aci_q_flush_def)
  have "rx_inv N M ?s'"
    using fresh_queue_ok [OF assms(1) tx] fresh_queue_ok [OF assms(1) rx] ok
    by (simp add: rx_inv_def tl_ok_def)
  with f show ?thesis by simp
qed

lemma init_inv:
  assumes "2 \<le> N" "N \<le> 255" "0 < M"
    "slots_ok N M (aci_tx_q s0)" "slots_ok N M (aci_rx_q s0)" "data_ok M (received_data s0)"
  shows "\<exists>s1. hal_aci_tl_init N irq s0 = Inr s1 \<and> rx_inv N M s1 \<and>
              interface_is_interrupt s1 = irq \<and> EIMSK s1 = EIMSK s0 \<and>
              m_aci_q_is_empty (aci_rx_q s1) \<and> m_aci_q_is_empty (aci_tx_q s1)"
proof -
  let ?z = "\<lambda>q. q\<lparr>aci_data := map zero2 (aci_data q), head := 0, tail := 0\<rparr>"
  let ?rd = "(received_data s0)\<lparr>buffer := (buffer (received_data s0))[0 := 0]\<rparr>"
  let ?s1 = "s0\<lparr>received_data := ?rd, aci_debug_print := False, interface_is_interrupt := irq,
                aci_tx_q := ?z (aci_tx_q s0), aci_rx_q := ?z (aci_rx_q s0),
                reqn_pin := reqn_pin s0 @ [1], rdy_attached := (irq \<or> rdy_attached s0)\<rparr>"
  have ne: "buffer (received_data s0) \<noteq> []" using assms(6) by (auto simp: data_ok_def)
  have tx: "m_aci_q_init N (aci_tx_q s0) = Inr (?z (aci_tx_q s0))"
    using assms(2,3,4) by (rule m_aci_q_init_result)
  have rx: "m_aci_q_init N (aci_rx_q s0) = Inr (?z (aci_rx_q s0))"
    using assms(2,3,5) by (rule m_aci_q_init_result)
  have r: "hal_aci_tl_init N irq s0 = Inr ?s1"
    using ne tx rx by (simp add: hal_aci_tl_init_def Let_def digitalWrite_reqn_def)
  have rd: "data_ok M ?rd" using assms(6) by (simp add: data_ok_def)
  have "rx_inv N M ?s1"
    using fresh_queue_ok [OF assms(1,4)] fresh_queue_ok [OF assms(1,5)] rd
    by (simp add: rx_inv_def tl_ok_def)
  with r show ?thesis by (simp add: m_aci_q_is_empty_def)
qed

lemma tl_step_inv:
  assumes "2 \<le> N" "N \<le> 255" "0 < M" "rx_inv N M s" "tl_step N M dev ev s = Inr s'"
  shows "rx_inv N M s' \<and> interface_is_interrupt s' = interface_is_interrupt s"
proof -
  have n: "0 < N" "N \<le> 256" using assms(1,2) by simp_all
  show ?thesis
  proof (cases ev)
    case Rdy_interrupt
    show ?thesis
    proof (cases "rdy_enabled s")
      case True
      with assms(5) Rdy_interrupt have "m_rdy_line_handle N M dev s = Inr s'"
        by (simp add: tl_step_def)
      with n assms(4) show ?thesis by (rule rdy_handle_inv)
    next
      case False
      with assms(5) Rdy_interrupt have "s' = s" by (simp add: tl_step_def)
      with assms(4) show ?thesis by simp
    qed
  next
    case (Call_send p)
    with assms(5) obtain ok where "hal_aci_tl_send N M p s = Inr (ok, s')"
      by (auto simp: tl_step_def split: sum.splits)
    from send_inv [OF n assms(4) this] show ?thesis by simp
  next
    case (Call_event_get rdyn dst)
    with assms(5) obtain ok c where "hal_aci_tl_event_get N M dev rdyn dst s = Inr (ok, c, s')"
      by (auto simp: tl_step_def split: sum.splits)
    from event_get_inv [OF n assms(4) this] show ?thesis by simp
  next
    case (Call_event_peek rdyn dst)
    with assms(5) obtain ok c where "hal_aci_tl_event_peek N M dev rdyn dst s = Inr (ok, c, s')"
      by (auto simp: tl_step_def split: sum.splits)
    from event_peek_inv [OF n assms(4) this] show ?thesis by simp
  next
    case Call_flush
    with assms(5) have "m_aci_q_flush N s = Inr s'" by (simp add: tl_step_def)
    with flush_inv [OF assms(1-4)] show ?thesis by auto
  next
    case (Call_debug_print enable)
    with assms(5) have "s' = s\<lparr>aci_debug_print := enable\<rparr>"
      by (simp add: tl_step_def hal_aci_debug_print_def)
    with assms(4) show ?thesis by (simp add: rx_inv_def tl_ok_def)
  qed
qed

lemma tl_step_not_halted:
  assumes "2 \<le> N" "N \<le> 255" "0 < M" "rx_inv N M s" "interface_is_interrupt s"
  shows "tl_step N M dev ev s \<noteq> Inl Halted"
proof (cases ev)
  case Rdy_interrupt
  then show ?thesis
    using rdy_handle_not_halted [OF assms(4), of dev] by (simp add: tl_step_def)
next
  case (Call_send p)
  then show ?thesis
    using send_not_halted [of N M p s] by (auto simp: tl_step_def split: sum.splits)
next
  case (Call_event_get rdyn dst)
  have "hal_aci_tl_event_get N M dev rdyn dst s \<noteq> Inl Halted"
    using assms(5)
    by (auto simp: hal_aci_tl_event_get_def Let_def split: sum.splits if_splits
             dest: dequeue_fault print_fault)
  with Call_event_get show ?thesis by (auto simp: tl_step_def split: sum.splits)
next
  case (Call_event_peek rdyn dst)
  have "hal_aci_tl_event_peek N M dev rdyn dst s \<noteq> Inl Halted"
    using assms(5)
    by (auto simp: hal_aci_tl_event_peek_def split: sum.splits if_splits
             dest: peek_fault print_fault)
  with Call_event_peek show ?thesis by (auto simp: tl_step_def split: sum.splits)
next
  case Call_flush
  then show ?thesis using flush_inv [OF assms(1-4)] by (auto simp: tl_step_def)
next
  case (Call_debug_print enable)
  then show ?thesis by (simp add: tl_step_def)
qed

lemma tl_run_inv:
  assumes "2 \<le> N" "N \<le> 255" "0 < M" "rx_inv N M s" "tl_run N M dev evs s = Inr s'"
  shows "rx_inv N M s' \<and> interface_is_interrupt s' = interface_is_interrupt s"
  using assms(4,5)
proof (induction evs arbitrary: s)
  case Nil
  then show ?case by simp
next
  case (Cons ev evs)
  from Cons.prems(2) obtain s1 where
    st: "tl_step N M dev ev s = Inr s1" and r: "tl_run N M dev evs s1 = Inr s'"
    by (auto split: sum.splits)
  from tl_step_inv [OF assms(1-3) Cons.prems(1) st] have
    i1: "rx_inv N M s1" and q1: "interface_is_interrupt s1 = interface_is_interrupt s"
    by simp_all
  from Cons.IH [OF i1 r] q1 show ?case by simp
qed

lemma tl_run_not_halted:
  assumes "2 \<le> N" "N \<le> 255" "0 < M" "rx_inv N M s" "interface_is_interrupt s"
  shows "tl_run N M dev evs s \<noteq> Inl Halted"
  using assms(4,5)
proof (induction evs arbitrary: s)
  case Nil
  then show ?case by simp
next
  case (Cons ev evs)
  show ?case
  proof (cases "tl_step N M dev ev s")
    case (Inl e)
    with tl_step_not_halted [OF assms(1-3) Cons.prems, of dev ev] show ?thesis by simp
  next
    case (Inr s1)
    from tl_step_inv [OF assms(1-3) Cons.prems(1) Inr] Cons.prems(2) have
      "rx_inv N M s1" "interface_is_interrupt s1" by simp_all
    from Cons.IH [OF this] Inr show ?thesis by simp
  qed
qed

text \<open>The definitions that evaluate a step on a concrete state.\<close>

lemmas tl_eval =
  tl_step_def rdy_enabled_def m_rdy_line_handle_def hal_aci_tl_poll_get_def
  hal_aci_tl_poll_get_loop.simps max_bytes_of_def digitalWrite_reqn_def spi_readwrite_def
  byte_at_def m_aci_q_dequeue_def m_aci_q_enqueue_def m_aci_q_is_empty_def m_aci_q_is_full_def
  next_index_def memcpy_def mk_tl_def mk_queue_def mk_data_def Let_def
  hal_aci_tl_event_get_def hal_aci_tl_event_peek_def m_aci_q_peek_def m_aci_device_query_def
  hal_aci_tl_init_def m_aci_q_init_def m_aci_q_init_loop.simps

section \<open>Masking of the RDYN interrupt by steps that run to completion\<close>

lemma rdy_handle_mask:
  assumes "tl_ok N M s" "m_rdy_line_handle N M dev s = Inr s'"
  shows "EIMSK s' =
           (if interface_is_interrupt s \<and> \<not> m_aci_q_is_full N (aci_rx_q s) \<and>
               m_aci_q_is_full N (aci_rx_q s')
            then EIMSK s AND NOT 2 else EIMSK s) \<and>
         interface_is_interrupt s' = interface_is_interrupt s"
proof -
  let ?ld = "dev (length (spi_mosi s) + 1)"
  let ?rx = "aci_rx_q s"
  from rdy_handle_result [OF assms(1), of dev] obtain s2 where
    f: "aci_rx_q s2 = ?rx" "EIMSK s2 = EIMSK s"
       "interface_is_interrupt s2 = interface_is_interrupt s" and
    r: "m_rdy_line_handle N M dev s =
             (if ?ld = 0 then Inr s2
              else if m_aci_q_is_full N ?rx then Inl Halted
              else if M < unat ?ld then Inl Bad_Access
              else Inr (s2\<lparr>aci_rx_q := pushed N ?rx (received_data s2),
                            EIMSK := (if m_aci_q_is_full N (pushed N ?rx (received_data s2))
                                         \<and> interface_is_interrupt s
                                      then EIMSK s AND NOT 2 else EIMSK s)\<rparr>))"
    by blast
  show ?thesis
  proof (cases "?ld = 0")
    case True
    with r assms(2) have "s' = s2" by simp
    with f show ?thesis by simp
  next
    case False
    with r assms(2) have nf: "\<not> m_aci_q_is_full N ?rx"
      and s': "s' = s2\<lparr>aci_rx_q := pushed N ?rx (received_data s2),
                            EIMSK := (if m_aci_q_is_full N (pushed N ?rx (received_data s2))
                                         \<and> interface_is_interrupt s
                                      then EIMSK s AND NOT 2 else EIMSK s)\<rparr>"
      by (simp_all split: if_splits)
    have e: "EIMSK s' = (if m_aci_q_is_full N (pushed N ?rx (received_data s2))
                                         \<and> interface_is_interrupt s
                                      then EIMSK s AND NOT 2 else EIMSK s)"
      by (subst s') simp
    have rx': "aci_rx_q s' = pushed N ?rx (received_data s2)" by (subst s') simp
    have i: "interface_is_interrupt s' = interface_is_interrupt s"
      by (subst s') (simp add: f)
    show ?thesis using nf by (auto simp: e rx' i)
  qed
qed

lemma device_query_mask:
  assumes "tl_ok N M s" "\<not> interface_is_interrupt s" "m_aci_device_query N M dev rdyn s = Inr s1"
  shows "EIMSK s1 = EIMSK s \<and> \<not> interface_is_interrupt s1"
proof (cases "0 = rdyn")
  case True
  with assms(3) have "m_rdy_line_handle N M dev s = Inr s1"
    by (simp add: m_aci_device_query_def)
  from rdy_handle_mask [OF assms(1) this] assms(2) show ?thesis by simp
next
  case False
  with assms(3) have "s1 = digitalWrite_reqn 0 s \<or> s1 = s"
    by (auto simp: m_aci_device_query_def split: if_splits)
  with assms(2) show ?thesis by (auto simp: digitalWrite_reqn_def)
qed

lemma event_get_mask:
  assumes "0 < N" "N \<le> 256" "tl_ok N M s"
    "hal_aci_tl_event_get N M dev rdyn dst s = Inr (ok, c, s')"
  shows "EIMSK s' =
           (if interface_is_interrupt s \<and> m_aci_q_is_full N (aci_rx_q s) \<and>
               \<not> m_aci_q_is_full N (aci_rx_q s')
            then EIMSK s OR 2 else EIMSK s) \<and>
         (interface_is_interrupt s \<and> \<not> m_aci_q_is_full N (aci_rx_q s) \<longrightarrow>
            \<not> m_aci_q_is_full N (aci_rx_q s')) \<and>
         (interface_is_interrupt s \<longrightarrow>
            (m_aci_q_is_full N (aci_rx_q s) \<and> \<not> m_aci_q_is_full N (aci_rx_q s')
             \<longleftrightarrow> m_aci_q_is_full N (aci_rx_q s) \<and> ok))"
proof (cases "interface_is_interrupt s")
  case False
  with assms(4) obtain s1 where
    q: "m_aci_device_query N M dev rdyn s = Inr s1"
    by (auto simp: hal_aci_tl_event_get_def split: sum.splits)
  from device_query_mask [OF assms(3) False q] have
    e1: "EIMSK s1 = EIMSK s" and i1: "\<not> interface_is_interrupt s1" by simp_all
  from assms(4) False q i1 have "EIMSK s' = EIMSK s1"
    by (auto simp: hal_aci_tl_event_get_def Let_def split: sum.splits if_splits)
  with e1 False show ?thesis by simp
next
  case True
  let ?rx = "aci_rx_q s"
  have rxok: "queue_ok N M ?rx" using assms(3) by (simp add: tl_ok_def)
  have deq: "m_aci_q_dequeue N ?rx dst =
           (if m_aci_q_is_empty ?rx then Inr (False, ?rx, None)
            else Inr (True, popped N ?rx,
                      if dst then Some (aci_data ?rx ! unat (head ?rx)) else None))"
    using rxok by (rule dequeue_result)
  show ?thesis
  proof (cases "m_aci_q_is_empty ?rx")
    case e: True
    with assms(4) True deq have "s' = s" "\<not> ok"
      by (simp_all add: hal_aci_tl_event_get_def Let_def)
    then show ?thesis by simp
  next
    case ne: False
    have nf': "\<not> m_aci_q_is_full N (popped N ?rx)"
      using assms(1,2) rxok ne by (rule popped_not_full)
    from assms(4) True deq ne have ok: ok
      and rx': "aci_rx_q s' = popped N ?rx"
      and e': "EIMSK s' = (if m_aci_q_is_full N ?rx then EIMSK s OR 2 else EIMSK s)"
      by (auto simp: hal_aci_tl_event_get_def Let_def split: sum.splits if_splits)
    show ?thesis using True ok nf' by (simp add: rx' e')
  qed
qed

lemma event_peek_mask:
  assumes "tl_ok N M s" "hal_aci_tl_event_peek N M dev rdyn dst s = Inr (ok, c, s')"
  shows "EIMSK s' = EIMSK s \<and> (interface_is_interrupt s \<longrightarrow> aci_rx_q s' = aci_rx_q s)"
proof (cases "interface_is_interrupt s")
  case False
  with assms(2) obtain s1 where
    q: "m_aci_device_query N M dev rdyn s = Inr s1"
    by (auto simp: hal_aci_tl_event_peek_def split: sum.splits)
  from device_query_mask [OF assms(1) False q] have e1: "EIMSK s1 = EIMSK s" by simp
  from assms(2) False q have "EIMSK s' = EIMSK s1"
    by (auto simp: hal_aci_tl_event_peek_def split: sum.splits if_splits)
  with e1 False show ?thesis by simp
next
  case True
  with assms(2) show ?thesis
    by (auto simp: hal_aci_tl_event_peek_def split: sum.splits if_splits)
qed

lemma send_mask:
  assumes "hal_aci_tl_send N M p s = Inr (ok, s')"
  shows "EIMSK s' = EIMSK s \<and> aci_rx_q s' = aci_rx_q s"
  using assms
  by (auto simp: hal_aci_tl_send_def Let_def digitalWrite_reqn_def
           split: list.splits sum.splits if_splits)

lemma single_slot_full:
  assumes "N = 1" "queue_ok N M q"
  shows "m_aci_q_is_full N q"
proof -
  have "unat (head q) = 0" using assms by (simp add: queue_ok_def)
  then have "head q = 0" by (simp add: unat_eq_0)
  then show ?thesis using assms(1) by (simp add: is_full_iff next_index_def)
qed

lemma flush_mask:
  assumes "0 < N" "tl_ok N M s" "m_aci_q_flush N s = Inr s'"
  shows "EIMSK s' = EIMSK s \<and>
         (\<not> m_aci_q_is_full N (aci_rx_q s) \<longrightarrow> \<not> m_aci_q_is_full N (aci_rx_q s'))"
proof -
  from assms(3) obtain tx rx where
    rx: "m_aci_q_init N (aci_rx_q s) = Inr rx" and s': "s' = s\<lparr>aci_tx_q := tx, aci_rx_q := rx\<rparr>"
    by (auto simp: m_aci_q_flush_def split: sum.splits)
  from rx have z: "head rx = 0" "tail rx = 0"
    by (auto simp: m_aci_q_init_def split: option.splits sum.splits)
  have e: "EIMSK s' = EIMSK s" and r: "aci_rx_q s' = rx" by (subst s', simp)+
  have "\<not> m_aci_q_is_full N rx" if "\<not> m_aci_q_is_full N (aci_rx_q s)"
  proof -
    have "N \<noteq> 1" using that assms(2) single_slot_full [of N M "aci_rx_q s"]
      by (auto simp: tl_ok_def)
    with assms(1) have "(1::nat) mod N = 1" by simp
    then show ?thesis using z by (simp add: is_full_iff next_index_def)
  qed
  with e r show ?thesis by simp
qed

text \<open>
  As long as nothing interrupts a step of \<open>tl_step\<close>, a step from a well-formed state
  changes \<open>EIMSK\<close> in two cases only, both in interrupt mode. Bit 1 is cleared, which
  masks the RDYN interrupt, when the event queue was not full before the step and is
  full after it. Bit 1 is set again when the step is a \<open>hal_aci_tl_event_get\<close> before
  which the event queue was full and after which it is not full. In polled mode no step
  changes \<open>EIMSK\<close>. What a handler that runs within \<open>hal_aci_tl_event_get\<close> makes of
  this is shown further down, on the processor.
\<close>

lemma step_mask_changes:
  assumes "0 < N" "N \<le> 256" "tl_ok N M s" "tl_step N M dev ev s = Inr s'"
  shows "EIMSK s' =
           (if interface_is_interrupt s \<and> \<not> m_aci_q_is_full N (aci_rx_q s) \<and>
               m_aci_q_is_full N (aci_rx_q s')
            then EIMSK s AND NOT 2
            else if interface_is_interrupt s \<and> is_event_get ev \<and>
                    m_aci_q_is_full N (aci_rx_q s) \<and> \<not> m_aci_q_is_full N (aci_rx_q s')
            then EIMSK s OR 2
            else EIMSK s)"
proof (cases ev)
  case Rdy_interrupt
  show ?thesis
  proof (cases "rdy_enabled s")
    case True
    with assms(4) Rdy_interrupt have "m_rdy_line_handle N M dev s = Inr s'"
      by (simp add: tl_step_def)
    from rdy_handle_mask [OF assms(3) this] Rdy_interrupt show ?thesis by simp
  next
    case False
    with assms(4) Rdy_interrupt have "s' = s" by (simp add: tl_step_def)
    then show ?thesis by simp
  qed
next
  case (Call_send p)
  with assms(4) obtain ok where "hal_aci_tl_send N M p s = Inr (ok, s')"
    by (auto simp: tl_step_def split: sum.splits)
  from send_mask [OF this] Call_send show ?thesis by simp
next
  case (Call_event_get rdyn dst)
  with assms(4) obtain ok c where "hal_aci_tl_event_get N M dev rdyn dst s = Inr (ok, c, s')"
    by (auto simp: tl_step_def split: sum.splits)
  from event_get_mask [OF assms(1,2,3) this] Call_event_get show ?thesis by auto
next
  case (Call_event_peek rdyn dst)
  with assms(4) obtain ok c where "hal_aci_tl_event_peek N M dev rdyn dst s = Inr (ok, c, s')"
    by (auto simp: tl_step_def split: sum.splits)
  from event_peek_mask [OF assms(3) this] Call_event_peek show ?thesis by auto
next
  case Call_flush
  with assms(4) have "m_aci_q_flush N s = Inr s'" by (simp add: tl_step_def)
  from flush_mask [OF assms(1,3) this] Call_flush show ?thesis by auto
next
  case (Call_debug_print enable)
  with assms(4) have "s' = s\<lparr>aci_debug_print := enable\<rparr>"
    by (simp add: tl_step_def hal_aci_debug_print_def)
  then show ?thesis by simp
qed

lemma step_mask_changes_witness:
  "tl_ok 4 3 (mk_tl (mk_queue [[0,0,0,0],[0,0,0,0],[0,0,0,0],[0,0,0,0]] 0 0)
                    (mk_queue [[1,7,0,0],[1,8,0,0],[0,0,0,0],[0,0,0,0]] 0 2)
                    (mk_data [0,0,0,0]) True 2) \<and>
   (\<exists>s'. tl_step 4 3 (\<lambda>i. 1) Rdy_interrupt
            (mk_tl (mk_queue [[0,0,0,0],[0,0,0,0],[0,0,0,0],[0,0,0,0]] 0 0)
                   (mk_queue [[1,7,0,0],[1,8,0,0],[0,0,0,0],[0,0,0,0]] 0 2)
                   (mk_data [0,0,0,0]) True 2) = Inr s' \<and>
         m_aci_q_is_full 4 (aci_rx_q s') \<and> EIMSK s' = 2 AND NOT 2)"
proof -
  let ?s = "mk_tl (mk_queue [[0,0,0,0],[0,0,0,0],[0,0,0,0],[0,0,0,0]] 0 0)
                  (mk_queue [[1,7,0,0],[1,8,0,0],[0,0,0,0],[0,0,0,0]] 0 2)
                  (mk_data [0,0,0,0]) True 2"
  have ok: "tl_ok 4 3 ?s"
    by (simp add: tl_ok_def queue_ok_def slots_ok_def data_ok_def mk_tl_def mk_queue_def
          mk_data_def)
  have "\<exists>s'. tl_step 4 3 (\<lambda>i. 1) Rdy_interrupt ?s = Inr s' \<and> m_aci_q_is_full 4 (aci_rx_q s')"
    by (simp add: tl_eval)
  then obtain s' where
    st: "tl_step 4 3 (\<lambda>i. 1) Rdy_interrupt ?s = Inr s'" and fu: "m_aci_q_is_full 4 (aci_rx_q s')"
    by blast
  have n: "(0::nat) < 4" "(4::nat) \<le> 256" by simp_all
  have irq: "interface_is_interrupt ?s" and nf: "\<not> m_aci_q_is_full 4 (aci_rx_q ?s)"
    and e: "EIMSK ?s = 2"
    by (simp_all add: tl_eval)
  from step_mask_changes [OF n ok st] irq nf fu e have "EIMSK s' = 2 AND NOT 2" by simp
  with ok st fu show ?thesis by blast
qed

section \<open>Null results\<close>

lemma rdy_handle_null:
  assumes "tl_ok N M s"
  shows "(dev (length (spi_mosi s) + 1) = 0 \<longrightarrow>
            (\<exists>s'. m_rdy_line_handle N M dev s = Inr s' \<and> aci_rx_q s' = aci_rx_q s \<and>
                   EIMSK s' = EIMSK s)) \<and>
         (\<forall>s'. m_rdy_line_handle N M dev s = Inr s' \<longrightarrow> aci_rx_q s' \<noteq> aci_rx_q s \<longrightarrow>
                0 < buffer (received_data s') ! 0)"
proof -
  let ?ld = "dev (length (spi_mosi s) + 1)"
  let ?rx = "aci_rx_q s"
  from rdy_handle_result [OF assms, of dev] obtain s2 where
    f: "aci_rx_q s2 = ?rx" "EIMSK s2 = EIMSK s" "buffer (received_data s2) ! 0 = ?ld" and
    r: "m_rdy_line_handle N M dev s =
             (if ?ld = 0 then Inr s2
              else if m_aci_q_is_full N ?rx then Inl Halted
              else if M < unat ?ld then Inl Bad_Access
              else Inr (s2\<lparr>aci_rx_q := pushed N ?rx (received_data s2),
                            EIMSK := (if m_aci_q_is_full N (pushed N ?rx (received_data s2))
                                         \<and> interface_is_interrupt s
                                      then EIMSK s AND NOT 2 else EIMSK s)\<rparr>))"
    by blast
  have a: "?ld = 0 \<longrightarrow>
            (\<exists>s'. m_rdy_line_handle N M dev s = Inr s' \<and> aci_rx_q s' = ?rx \<and> EIMSK s' = EIMSK s)"
    using r f by simp
  have b: "0 < buffer (received_data s') ! 0"
    if h: "m_rdy_line_handle N M dev s = Inr s'" and ch: "aci_rx_q s' \<noteq> ?rx" for s'
  proof (cases "?ld = 0")
    case True
    with r h have "s' = s2" by simp
    with f ch show ?thesis by simp
  next
    case False
    with r h have "received_data s' = received_data s2"
      by (auto split: if_splits)
    with f False show ?thesis by (simp add: word_greater_zero_iff)
  qed
  from a b show ?thesis by blast
qed

text \<open>
  Claim C10. In every state reached after \<open>hal_aci_tl_init\<close>: when the device declares
  the length 0, \<open>m_rdy_line_handle\<close> returns with the event queue and \<open>EIMSK\<close> as they
  were (nothing is enqueued, the test for a full queue is skipped); when the handler
  does change the event queue, the packet received has a length byte above 0; every
  packet the event queue holds has a length byte above 0, and so has every packet that
  \<open>hal_aci_tl_event_get\<close> or \<open>hal_aci_tl_event_peek\<close> copies out.
\<close>

theorem null_result_discarded:
  assumes "2 \<le> N" "N \<le> 255" "0 < M"
    "slots_ok N M (aci_tx_q s0)" "slots_ok N M (aci_rx_q s0)" "data_ok M (received_data s0)"
  shows "\<exists>s1. hal_aci_tl_init N irq s0 = Inr s1 \<and>
           (\<forall>evs s. tl_run N M dev evs s1 = Inr s \<longrightarrow>
              (dev (length (spi_mosi s) + 1) = 0 \<longrightarrow>
                 (\<exists>s'. m_rdy_line_handle N M dev s = Inr s' \<and> aci_rx_q s' = aci_rx_q s \<and>
                        EIMSK s' = EIMSK s)) \<and>
              (\<forall>s'. m_rdy_line_handle N M dev s = Inr s' \<longrightarrow> aci_rx_q s' \<noteq> aci_rx_q s \<longrightarrow>
                     0 < buffer (received_data s') ! 0) \<and>
              list_all (\<lambda>d. 0 < buffer d ! 0) (q_contents N (aci_rx_q s)) \<and>
              (\<forall>rdyn dst ok d s'.
                 hal_aci_tl_event_get N M dev rdyn dst s = Inr (ok, Some d, s') \<longrightarrow>
                 0 < buffer d ! 0) \<and>
              (\<forall>rdyn dst ok d s'.
                 hal_aci_tl_event_peek N M dev rdyn dst s = Inr (ok, Some d, s') \<longrightarrow>
                 0 < buffer d ! 0))"
proof -
  have n: "0 < N" "N \<le> 256" using assms(1,2) by simp_all
  from init_inv [OF assms, of irq] obtain s1 where
    i: "hal_aci_tl_init N irq s0 = Inr s1" and inv1: "rx_inv N M s1"
    by blast
  have "(dev (length (spi_mosi s) + 1) = 0 \<longrightarrow>
                 (\<exists>s'. m_rdy_line_handle N M dev s = Inr s' \<and> aci_rx_q s' = aci_rx_q s \<and>
                        EIMSK s' = EIMSK s)) \<and>
              (\<forall>s'. m_rdy_line_handle N M dev s = Inr s' \<longrightarrow> aci_rx_q s' \<noteq> aci_rx_q s \<longrightarrow>
                     0 < buffer (received_data s') ! 0) \<and>
              list_all (\<lambda>d. 0 < buffer d ! 0) (q_contents N (aci_rx_q s)) \<and>
              (\<forall>rdyn dst ok d s'.
                 hal_aci_tl_event_get N M dev rdyn dst s = Inr (ok, Some d, s') \<longrightarrow>
                 0 < buffer d ! 0) \<and>
              (\<forall>rdyn dst ok d s'.
                 hal_aci_tl_event_peek N M dev rdyn dst s = Inr (ok, Some d, s') \<longrightarrow>
                 0 < buffer d ! 0)"
    if run: "tl_run N M dev evs s1 = Inr s" for evs s
  proof -
    from tl_run_inv [OF assms(1-3) inv1 run] have inv: "rx_inv N M s" by simp
    then have ok: "tl_ok N M s" by (simp add: rx_inv_def)
    have c: "list_all (\<lambda>d. 0 < buffer d ! 0) (q_contents N (aci_rx_q s))"
      using inv by (simp add: rx_inv_def word_greater_zero_iff)
    have g: "0 < buffer d ! 0"
      if "hal_aci_tl_event_get N M dev rdyn dst s = Inr (ok, Some d, s')" for rdyn dst ok d s'
      using event_get_inv [OF n inv that] by (simp add: word_greater_zero_iff)
    have p: "0 < buffer d ! 0"
      if "hal_aci_tl_event_peek N M dev rdyn dst s = Inr (ok, Some d, s')" for rdyn dst ok d s'
      using event_peek_inv [OF n inv that] by (simp add: word_greater_zero_iff)
    from rdy_handle_null [OF ok, of dev] c g p show ?thesis by blast
  qed
  with i show ?thesis by blast
qed

theorem null_result_discarded_witness:
  "slots_ok 4 3 (mk_queue [[9,9,9,9],[9,9,9,9],[9,9,9,9],[9,9,9,9]] 1 3) \<and>
   data_ok 3 (mk_data [9,9,9,9]) \<and>
   (\<exists>s1 s s'. hal_aci_tl_init 4 False
              (mk_tl (mk_queue [[9,9,9,9],[9,9,9,9],[9,9,9,9],[9,9,9,9]] 1 3)
                     (mk_queue [[9,9,9,9],[9,9,9,9],[9,9,9,9],[9,9,9,9]] 1 3)
                     (mk_data [9,9,9,9]) False 2) = Inr s1 \<and>
         tl_run 4 3 (\<lambda>i. if i = 1 then 2 else 0) [Call_event_peek 0 True] s1 = Inr s \<and>
         q_contents 4 (aci_rx_q s) \<noteq> [] \<and>
         list_all (\<lambda>d. 0 < buffer d ! 0) (q_contents 4 (aci_rx_q s)) \<and>
         (\<lambda>i. if i = 1 then 2 else 0) (length (spi_mosi s) + 1) = (0::u8) \<and>
         m_rdy_line_handle 4 3 (\<lambda>i. if i = 1 then 2 else 0) s = Inr s' \<and>
         aci_rx_q s' = aci_rx_q s \<and> EIMSK s' = EIMSK s)"
proof -
  let ?q = "mk_queue [[9,9,9,9],[9,9,9,9],[9,9,9,9],[9,9,9,9]] 1 3"
  let ?s0 = "mk_tl ?q ?q (mk_data [9,9,9,9]) False 2"
  let ?dev = "\<lambda>i::nat. if i = 1 then 2 else (0::u8)"
  have a: "slots_ok 4 3 ?q"
    by (simp add: slots_ok_def data_ok_def mk_queue_def mk_data_def)
  have b: "data_ok 3 (mk_data [9,9,9,9])" by (simp add: data_ok_def mk_data_def)
  have a1: "slots_ok 4 3 (aci_tx_q ?s0)" and a2: "slots_ok 4 3 (aci_rx_q ?s0)"
    and b1: "data_ok 3 (received_data ?s0)"
    using a b by (simp_all add: mk_tl_def)
  have n: "(2::nat) \<le> 4" "(4::nat) \<le> 255" "(0::nat) < 3" by simp_all
  from null_result_discarded [OF n a1 a2 b1, of False ?dev] obtain s1 where
    i: "hal_aci_tl_init 4 False ?s0 = Inr s1" and
    h: "\<forall>evs s. tl_run 4 3 ?dev evs s1 = Inr s \<longrightarrow>
              (?dev (length (spi_mosi s) + 1) = 0 \<longrightarrow>
                 (\<exists>s'. m_rdy_line_handle 4 3 ?dev s = Inr s' \<and> aci_rx_q s' = aci_rx_q s \<and>
                        EIMSK s' = EIMSK s)) \<and>
              (\<forall>s'. m_rdy_line_handle 4 3 ?dev s = Inr s' \<longrightarrow> aci_rx_q s' \<noteq> aci_rx_q s \<longrightarrow>
                     0 < buffer (received_data s') ! 0) \<and>
              list_all (\<lambda>d. 0 < buffer d ! 0) (q_contents 4 (aci_rx_q s)) \<and>
              (\<forall>rdyn dst ok d s'.
                 hal_aci_tl_event_get 4 3 ?dev rdyn dst s = Inr (ok, Some d, s') \<longrightarrow>
                 0 < buffer d ! 0) \<and>
              (\<forall>rdyn dst ok d s'.
                 hal_aci_tl_event_peek 4 3 ?dev rdyn dst s = Inr (ok, Some d, s') \<longrightarrow>
                 0 < buffer d ! 0)"
    by blast
  have "\<exists>s1 s. hal_aci_tl_init 4 False ?s0 = Inr s1 \<and>
               tl_run 4 3 ?dev [Call_event_peek 0 True] s1 = Inr s \<and>
               q_count 4 (aci_rx_q s) = 1 \<and> length (spi_mosi s) = 4"
    by (simp add: tl_eval q_count_def)
  with i obtain s where
    r: "tl_run 4 3 ?dev [Call_event_peek 0 True] s1 = Inr s" and
    c: "q_count 4 (aci_rx_q s) = 1" and l: "length (spi_mosi s) = 4"
    by auto
  have ne: "q_contents 4 (aci_rx_q s) \<noteq> []" using c by (simp add: q_contents_def)
  have z: "?dev (length (spi_mosi s) + 1) = 0" using l by simp
  from h r have
    h1: "?dev (length (spi_mosi s) + 1) = 0 \<longrightarrow>
           (\<exists>s'. m_rdy_line_handle 4 3 ?dev s = Inr s' \<and> aci_rx_q s' = aci_rx_q s \<and>
                  EIMSK s' = EIMSK s)" and
    h2: "list_all (\<lambda>d. 0 < buffer d ! 0) (q_contents 4 (aci_rx_q s))"
    by blast+
  from h1 z obtain s' where
    "m_rdy_line_handle 4 3 ?dev s = Inr s'" "aci_rx_q s' = aci_rx_q s" "EIMSK s' = EIMSK s"
    by blast
  with a b i r ne h2 z show ?thesis by blast
qed

section \<open>Steps that run to completion do not halt\<close>

text \<open>
  As long as nothing interrupts a step of \<open>tl_step\<close>: after \<open>hal_aci_tl_init\<close> in
  interrupt mode, with queues of at least two slots, no sequence of steps ends in the
  \<^verbatim>\<open>while(1);\<close> of \<open>m_rdy_line_handle\<close> (\<open>Halted\<close>), and between two steps the RDYN
  interrupt is not enabled while the event queue is full. Within the handler it is, as
  the run of the processor at the end shows.
\<close>

lemma run_never_halts:
  assumes "2 \<le> N" "N \<le> 255" "0 < M"
    "slots_ok N M (aci_tx_q s0)" "slots_ok N M (aci_rx_q s0)" "data_ok M (received_data s0)"
  shows "\<exists>s1. hal_aci_tl_init N True s0 = Inr s1 \<and>
           (\<forall>evs. tl_run N M dev evs s1 \<noteq> Inl Halted) \<and>
           (\<forall>evs s. tl_run N M dev evs s1 = Inr s \<longrightarrow>
                    m_aci_q_is_full N (aci_rx_q s) \<longrightarrow> \<not> rdy_enabled s)"
proof -
  from init_inv [OF assms, of True] obtain s1 where
    i: "hal_aci_tl_init N True s0 = Inr s1" and inv1: "rx_inv N M s1"
    and irq1: "interface_is_interrupt s1"
    by auto
  have a: "tl_run N M dev evs s1 \<noteq> Inl Halted" for evs
    using assms(1-3) inv1 irq1 by (rule tl_run_not_halted)
  have b: "\<not> rdy_enabled s"
    if "tl_run N M dev evs s1 = Inr s" "m_aci_q_is_full N (aci_rx_q s)" for evs s
  proof -
    from tl_run_inv [OF assms(1-3) inv1 that(1)] irq1 have
      "rx_inv N M s" "interface_is_interrupt s" by simp_all
    with that(2) show ?thesis by (simp add: rx_inv_def rdy_enabled_def)
  qed
  from i a b show ?thesis by blast
qed

lemma run_never_halts_witness:
  "slots_ok 4 3 (mk_queue [[9,9,9,9],[9,9,9,9],[9,9,9,9],[9,9,9,9]] 1 3) \<and>
   data_ok 3 (mk_data [9,9,9,9]) \<and>
   (\<exists>s1 s. hal_aci_tl_init 4 True
              (mk_tl (mk_queue [[9,9,9,9],[9,9,9,9],[9,9,9,9],[9,9,9,9]] 1 3)
                     (mk_queue [[9,9,9,9],[9,9,9,9],[9,9,9,9],[9,9,9,9]] 1 3)
                     (mk_data [9,9,9,9]) False 2) = Inr s1 \<and>
         tl_run 4 3 (\<lambda>i. 1) [Rdy_interrupt, Rdy_interrupt, Rdy_interrupt, Rdy_interrupt] s1
           = Inr s \<and>
         m_aci_q_is_full 4 (aci_rx_q s) \<and> \<not> rdy_enabled s \<and>
         tl_run 4 3 (\<lambda>i. 1) [Rdy_interrupt, Rdy_interrupt, Rdy_interrupt, Rdy_interrupt,
                              Rdy_interrupt] s1 \<noteq> Inl Halted)"
proof -
  let ?q = "mk_queue [[9,9,9,9],[9,9,9,9],[9,9,9,9],[9,9,9,9]] 1 3"
  let ?s0 = "mk_tl ?q ?q (mk_data [9,9,9,9]) False 2"
  let ?evs = "[Rdy_interrupt, Rdy_interrupt, Rdy_interrupt, Rdy_interrupt]"
  have a: "slots_ok 4 3 ?q"
    by (simp add: slots_ok_def data_ok_def mk_queue_def mk_data_def)
  have b: "data_ok 3 (mk_data [9,9,9,9])" by (simp add: data_ok_def mk_data_def)
  have a1: "slots_ok 4 3 (aci_tx_q ?s0)" and a2: "slots_ok 4 3 (aci_rx_q ?s0)"
    and b1: "data_ok 3 (received_data ?s0)"
    using a b by (simp_all add: mk_tl_def)
  have n: "(2::nat) \<le> 4" "(4::nat) \<le> 255" "(0::nat) < 3" by simp_all
  from run_never_halts [OF n a1 a2 b1, of "\<lambda>i. 1"] obtain s1 where
    i: "hal_aci_tl_init 4 True ?s0 = Inr s1" and
    h: "\<forall>evs. tl_run 4 3 (\<lambda>i. 1) evs s1 \<noteq> Inl Halted" and
    m: "\<forall>evs s. tl_run 4 3 (\<lambda>i. 1) evs s1 = Inr s \<longrightarrow>
                m_aci_q_is_full 4 (aci_rx_q s) \<longrightarrow> \<not> rdy_enabled s"
    by blast
  have "\<exists>s1 s. hal_aci_tl_init 4 True ?s0 = Inr s1 \<and> tl_run 4 3 (\<lambda>i. 1) ?evs s1 = Inr s \<and>
               m_aci_q_is_full 4 (aci_rx_q s)"
    by (simp add: tl_eval)
  with i obtain s where
    r: "tl_run 4 3 (\<lambda>i. 1) ?evs s1 = Inr s" and f: "m_aci_q_is_full 4 (aci_rx_q s)"
    by auto
  from m r f have ne: "\<not> rdy_enabled s" by blast
  from h have "tl_run 4 3 (\<lambda>i. 1) (Rdy_interrupt # ?evs) s1 \<noteq> Inl Halted" by blast
  with a b i r f ne show ?thesis by blast
qed

section \<open>The length byte of a received packet\<close>

text \<open>
  Claim C7 on the receiving side, with \<open>N = 4\<close> and \<open>M = 31\<close>: the device declares the
  length 32. \<open>hal_aci_tl_poll_get\<close> exchanges 31 bytes after the header but returns the
  packet with the length byte 32, above \<open>M\<close>; \<open>m_aci_q_enqueue\<close> on it copies 33 bytes
  between buffers of 32 (\<open>Bad_Access\<close>), and so does \<open>m_rdy_line_handle\<close>.
\<close>

theorem rx_length_above_maximum:
  "\<exists>s2. hal_aci_tl_poll_get 4 31 (\<lambda>i. if i = 1 then 32 else 0)
           (mk_tl (mk_queue (replicate 4 (replicate 32 0)) 0 0)
                  (mk_queue (replicate 4 (replicate 32 0)) 0 0)
                  (mk_data (replicate 32 0)) True 2) = Inr s2 \<and>
         buffer (received_data s2) ! 0 = 32 \<and>
         m_aci_q_enqueue 4 (aci_rx_q s2) (received_data s2) = Inl Bad_Access \<and>
         m_rdy_line_handle 4 31 (\<lambda>i. if i = 1 then 32 else 0)
           (mk_tl (mk_queue (replicate 4 (replicate 32 0)) 0 0)
                  (mk_queue (replicate 4 (replicate 32 0)) 0 0)
                  (mk_data (replicate 32 0)) True 2) = Inl Bad_Access"
proof -
  let ?q = "mk_queue (replicate 4 (replicate 32 0)) 0 0"
  let ?s = "mk_tl ?q ?q (mk_data (replicate 32 0)) True 2"
  let ?dev = "\<lambda>i::nat. if i = 1 then 32 else (0::u8)"
  have q: "queue_ok 4 31 ?q"
    by (simp add: queue_ok_def slots_ok_def data_ok_def mk_queue_def mk_data_def list_all_iff)
  have rd: "data_ok 31 (mk_data (replicate 32 0))" by (simp add: data_ok_def mk_data_def)
  have ok: "tl_ok 4 31 ?s" using q rd by (simp add: tl_ok_def mk_tl_def)
  have tx: "queue_ok 4 31 (aci_tx_q ?s)" and rd': "data_ok 31 (received_data ?s)"
    using ok by (simp_all add: tl_ok_def)
  have m: "length (spi_mosi ?s) = 0" and rx: "aci_rx_q ?s = ?q" by (simp_all add: mk_tl_def)
  from poll_get_result [OF tx rd', of ?dev] obtain s2 where
    p: "hal_aci_tl_poll_get 4 31 ?dev ?s = Inr s2" "aci_rx_q s2 = aci_rx_q ?s"
       "data_ok 31 (received_data s2)"
       "buffer (received_data s2) ! 0 = ?dev (length (spi_mosi ?s) + 1)"
    by blast
  have b0: "buffer (received_data s2) ! 0 = 32" using p(4) m by simp
  have len: "length (buffer (received_data s2)) = 32" using p(3) by (simp add: data_ok_def)
  then have ne: "buffer (received_data s2) \<noteq> []" by auto
  have e: "m_aci_q_enqueue 4 (aci_rx_q s2) (received_data s2) = Inl Bad_Access"
    using p(2) rx ne b0 len
    by (simp add: m_aci_q_enqueue_def Let_def mk_queue_def mk_data_def next_index_def)
  have nf: "\<not> m_aci_q_is_full 4 (aci_rx_q ?s)"
    by (simp add: m_aci_q_is_full_def mk_tl_def mk_queue_def next_index_def)
  from rdy_handle_result [OF ok, of ?dev] obtain s3 where
    "m_rdy_line_handle 4 31 ?dev ?s =
       (if ?dev (length (spi_mosi ?s) + 1) = 0 then Inr s3
        else if m_aci_q_is_full 4 (aci_rx_q ?s) then Inl Halted
        else if 31 < unat (?dev (length (spi_mosi ?s) + 1)) then Inl Bad_Access
        else Inr (s3\<lparr>aci_rx_q := pushed 4 (aci_rx_q ?s) (received_data s3),
                      EIMSK := (if m_aci_q_is_full 4 (pushed 4 (aci_rx_q ?s) (received_data s3))
                                   \<and> interface_is_interrupt ?s
                                then EIMSK ?s AND NOT 2 else EIMSK ?s)\<rparr>))"
    by blast
  then have h: "m_rdy_line_handle 4 31 ?dev ?s = Inl Bad_Access"
    using nf m by simp
  from p(1) b0 e h show ?thesis by blast
qed

section \<open>The functions cut at the return of \<open>m_aci_q_is_full\<close>\<close>

text \<open>
  The two parts of \<open>m_rdy_line_handle\<close> and of \<open>hal_aci_tl_event_get\<close>, the one run
  after the other, are the whole function.
\<close>

lemma rdy_line_handle_cut:
  "m_rdy_line_handle N M dev (tl_state c) =
     (case m_rdy_line_handle_to_is_full N M dev c of
        Inl e \<Rightarrow> Inl e
      | Inr (None, c') \<Rightarrow> Inr (tl_state c')
      | Inr (Some full, c') \<Rightarrow> Inr (tl_state (m_rdy_line_handle_from_is_full full c')))"
  by (simp add: m_rdy_line_handle_def m_rdy_line_handle_to_is_full_def
        m_rdy_line_handle_from_is_full_def m_aci_q_is_full_rx_def noInterrupts_def
        interrupts_def Let_def split: sum.splits list.splits prod.splits)

lemma event_get_cut:
  "hal_aci_tl_event_get N M dev rdyn dst (tl_state c) =
     (case hal_aci_tl_event_get_to_is_full N M dev rdyn c of
        Inl e \<Rightarrow> Inl e
      | Inr (was_full, c1) \<Rightarrow>
          (case hal_aci_tl_event_get_from_is_full N was_full dst c1 of
             Inl e \<Rightarrow> Inl e
           | Inr (ok, copied, c2) \<Rightarrow> Inr (ok, copied, tl_state c2)))"
  by (simp add: hal_aci_tl_event_get_def hal_aci_tl_event_get_to_is_full_def
        hal_aci_tl_event_get_from_is_full_def m_aci_q_is_full_rx_def noInterrupts_def
        interrupts_def Let_def split: sum.splits list.splits prod.splits)

lemma to_is_full_frame:
  assumes "m_rdy_line_handle_to_is_full N M dev c = Inr (r, c')"
  shows "c' = c\<lparr>tl_state := tl_state c', sreg_i := (r \<noteq> None \<or> sreg_i c)\<rparr>"
  using assms
  by (auto simp: m_rdy_line_handle_to_is_full_def m_aci_q_is_full_rx_def noInterrupts_def
        interrupts_def Let_def split: sum.splits list.splits if_splits prod.splits)

text \<open>
  A run of the processor in which a function that waits continues at once is a run of
  steps that run to completion.
\<close>

lemma rdy_low_resume:
  assumes "sreg_i c" "interrupted c = []"
  shows "mcu_run N M dev [Rdy_low, Resume] c =
           (case tl_step N M dev Rdy_interrupt (tl_state c) of
              Inl e \<Rightarrow> Inl e | Inr s \<Rightarrow> Inr (c\<lparr>tl_state := s\<rparr>))"
proof (cases "rdy_enabled (tl_state c)")
  case False
  with assms show ?thesis by (simp add: mcu_step_def tl_step_def)
next
  case True
  let ?c = "c\<lparr>sreg_i := False\<rparr>"
  have cut: "m_rdy_line_handle N M dev (tl_state c) =
     (case m_rdy_line_handle_to_is_full N M dev ?c of
        Inl e \<Rightarrow> Inl e
      | Inr (None, c') \<Rightarrow> Inr (tl_state c')
      | Inr (Some full, c') \<Rightarrow> Inr (tl_state (m_rdy_line_handle_from_is_full full c')))"
    using rdy_line_handle_cut [of N M dev ?c] by simp
  show ?thesis
  proof (cases "m_rdy_line_handle_to_is_full N M dev ?c")
    case (Inl e)
    with True assms cut show ?thesis by (simp add: mcu_step_def tl_step_def)
  next
    case (Inr p)
    obtain r c' where p: "p = (r, c')" by (cases p)
    from to_is_full_frame [of N M dev ?c r c'] Inr p have
      fr: "c' = c\<lparr>tl_state := tl_state c', sreg_i := (r \<noteq> None)\<rparr>" by simp
    have "interrupted c' = interrupted (c\<lparr>tl_state := tl_state c', sreg_i := (r \<noteq> None)\<rparr>)"
      by (rule arg_cong [OF fr])
    then have i: "interrupted c' = []" using assms(2) by simp
    show ?thesis
    proof (cases r)
      case None
      have "c'\<lparr>sreg_i := True\<rparr> = c\<lparr>tl_state := tl_state c'\<rparr>"
        by (subst fr) (use assms(1) in simp)
      with True assms cut Inr p None i show ?thesis
        by (simp add: mcu_step_def tl_step_def)
    next
      case (Some full)
      have "(m_rdy_line_handle_from_is_full full
               (c'\<lparr>interrupted := [In_rdy_line_handle full]\<rparr>))\<lparr>sreg_i := True, interrupted := []\<rparr>
            = c\<lparr>tl_state := tl_state (m_rdy_line_handle_from_is_full full c')\<rparr>"
        by (subst (1 2) fr) (use assms in \<open>simp add: m_rdy_line_handle_from_is_full_def\<close>)
      with True assms cut Inr p Some i show ?thesis
        by (simp add: mcu_step_def tl_step_def)
    qed
  qed
qed

lemma event_get_resume:
  assumes "interrupted c = []"
  shows "mcu_run N M dev [Enter_event_get rdyn dst, Resume] c =
           (case tl_step N M dev (Call_event_get rdyn dst) (tl_state c) of
              Inl e \<Rightarrow> Inl e | Inr s \<Rightarrow> Inr (c\<lparr>tl_state := s, sreg_i := True\<rparr>))"
  using assms
  by (simp add: mcu_step_def tl_step_def hal_aci_tl_event_get_def
        hal_aci_tl_event_get_to_is_full_def
        hal_aci_tl_event_get_from_is_full_def m_aci_q_is_full_rx_def noInterrupts_def
        interrupts_def Let_def split: sum.splits list.splits prod.splits)

text \<open>The definitions that evaluate a step of the processor on a concrete state.\<close>

lemmas mcu_eval =
  mcu_step_def mcu_start_def m_rdy_line_handle_to_is_full_def m_rdy_line_handle_from_is_full_def
  hal_aci_tl_event_get_to_is_full_def hal_aci_tl_event_get_from_is_full_def
  m_aci_q_is_full_rx_def noInterrupts_def interrupts_def

lemma zeros_32:
  "replicate 32 (0::u8) =
     [0,0,0,0,0,0,0,0,0,0,0,0,0,0,0,0,0,0,0,0,0,0,0,0,0,0,0,0,0,0,0,0]"
  by (simp add: numeral_eq_Suc)

lemma replicate_4: "replicate 4 x = [x, x, x, x]"
  by (simp add: numeral_eq_Suc)

section \<open>The handler interrupts \<open>hal_aci_tl_event_get\<close>\<close>

text \<open>
  Claim C3, with \<open>N = 4\<close> and \<open>M = 31\<close> in interrupt mode, the device sending events of
  one byte. The claim has the RDYN interrupt unmasked (bit 1 of \<open>EIMSK\<close> set again) by
  the call of \<open>hal_aci_tl_event_get\<close> whose dequeue returns true and takes the event
  queue from full to not full. Here is such a call that leaves it masked. The event
  queue holds two events when the application calls \<open>hal_aci_tl_event_get\<close>. The call
  has read \<^verbatim>\<open>was_full\<close>, which is false, when the RDYN line goes low: the handler
  enqueues a third event, which fills the queue, and clears bit 1. The call continues:
  its dequeue returns true and takes the queue from full to not full, and bit 1 stays
  clear, the test of line 282 being on \<^verbatim>\<open>was_full\<close>. From then on the interrupt is
  masked although the queue is not full: however low the RDYN line, the following calls
  of \<open>hal_aci_tl_event_get\<close> empty the queue, leave bit 1 clear, and not one byte more
  is exchanged with the device.
\<close>

theorem event_get_interrupted:
  "\<exists>s1 c2 d c3 s4.
     hal_aci_tl_init 4 True
       (mk_tl (mk_queue (replicate 4 (replicate 32 0)) 0 0)
              (mk_queue (replicate 4 (replicate 32 0)) 0 0)
              (mk_data (replicate 32 0)) False 2) = Inr s1 \<and>
     mcu_run 4 31 (\<lambda>i. 1)
       [Rdy_low, Resume, Rdy_low, Resume, Enter_event_get 1 True, Rdy_low, Resume]
       (mcu_start s1) = Inr c2 \<and>
     interrupted c2 = [In_event_get False True] \<and>
     m_aci_q_is_full 4 (aci_rx_q (tl_state c2)) \<and> \<not> bit (EIMSK (tl_state c2)) 1 \<and>
     hal_aci_tl_event_get_from_is_full 4 False True c2 = Inr (True, Some d, c3) \<and>
     mcu_step 4 31 (\<lambda>i. 1) Resume c2 = Inr (c3\<lparr>interrupted := []\<rparr>) \<and>
     \<not> m_aci_q_is_full 4 (aci_rx_q (tl_state c3)) \<and>
     interface_is_interrupt (tl_state c3) \<and> \<not> bit (EIMSK (tl_state c3)) 1 \<and>
     tl_run 4 31 (\<lambda>i. 1)
       [Rdy_interrupt, Call_event_get 1 True, Rdy_interrupt, Call_event_get 1 True, Rdy_interrupt]
       (tl_state c3) = Inr s4 \<and>
     m_aci_q_is_empty (aci_rx_q s4) \<and> \<not> bit (EIMSK s4) 1 \<and>
     spi_mosi s4 = spi_mosi (tl_state c3)"
  by (simp add: tl_eval mcu_eval zeros_32 replicate_4)

section \<open>The handler interrupts itself\<close>

text \<open>
  Claim C8, with \<open>N = 4\<close> and \<open>M = 31\<close> in interrupt mode, the device sending events of
  one byte. The claim has the \<^verbatim>\<open>while(1);\<close> of the handler out of reach, the RDYN
  interrupt being masked whenever the event queue is full. Here the handler reaches
  it. The handler runs twice, and a third time down to the return of
  \<^verbatim>\<open>m_aci_q_is_full\<close> (line 201). There the event queue is full,
  \<open>hal_aci_tl_poll_get\<close> has attached the interrupt again (line 430), \<^verbatim>\<open>interrupts()\<close>
  has set the global interrupt flag (line 134), and bit 1 of \<open>EIMSK\<close> is still set,
  line 208 being yet to come: the interrupt is enabled while the queue is full. The
  RDYN line is low again, the handler is entered within itself, its enqueue returns
  false and it ends in \<^verbatim>\<open>while(1);\<close> (\<open>Halted\<close>).
\<close>

theorem rdy_handler_nested_halts:
  "\<exists>s1 c.
     hal_aci_tl_init 4 True
       (mk_tl (mk_queue (replicate 4 (replicate 32 0)) 0 0)
              (mk_queue (replicate 4 (replicate 32 0)) 0 0)
              (mk_data (replicate 32 0)) False 2) = Inr s1 \<and>
     mcu_run 4 31 (\<lambda>i. 1) [Rdy_low, Resume, Rdy_low, Resume, Rdy_low] (mcu_start s1) = Inr c \<and>
     interrupted c = [In_rdy_line_handle True] \<and>
     m_aci_q_is_full 4 (aci_rx_q (tl_state c)) \<and>
     sreg_i c \<and> rdy_enabled (tl_state c) \<and>
     mcu_step 4 31 (\<lambda>i. 1) Rdy_low c = Inl Halted"
  by (simp add: tl_eval mcu_eval zeros_32 replicate_4)

end
